theory Spec2Isabelle
  imports Complex_Main
begin

section \<open>Data model\<close>

text \<open>
  The middleware library is written in TypeScript for the Fetch API objects of Deno.
  A JavaScript \<open>throw\<close> may raise any value; the code only ever inspects
  \<open>error instanceof Error\<close> and \<open>error.message\<close>, so a thrown value is either an
  \<open>Error\<close> object with its message or some other value.
  The result of an \<open>async\<close> function, once settled, is a rejection (\<open>Inl\<close>) or a
  resolved response (\<open>Inr\<close>).
  Numbers are modelled as integers (time stamps, counters, status codes).
  The headers of a response are immutable when the response comes from
  \<open>Response.redirect\<close>, \<open>Response.error\<close> or \<open>fetch\<close>; those of a response made by
  \<open>new Response\<close> are not.
\<close>

datatype thrown = ErrorObj string | NonError string

type_synonym Headers = "(string \<times> string) list"

record response =
  status :: int
  headers :: Headers
  body :: "string option"
  immutable_headers :: bool

record request =
  "method" :: string
  url_hostname :: string
  req_headers :: Headers
  "context" :: "nat option"

type_synonym outcome = "thrown + response"

subsection \<open>Header lists\<close>

text \<open>
  A Fetch \<open>Headers\<close> object compares header names without regard to ASCII case:
  \<open>get\<close> returns \<open>null\<close> (here \<open>None\<close>) when no entry has the name and otherwise the
  values of all entries of that name joined by a comma and a space; \<open>set\<close> replaces every
  entry of the name by one entry, and throws a \<open>TypeError\<close> when the headers are
  immutable (the message is the runtime's; Deno's is used here). The header values the
  code sets from its configuration are taken to be valid header values without
  surrounding white space.
\<close>

definition lower_char :: "char \<Rightarrow> char" where
  "lower_char c =
     (case map_of (zip ''ABCDEFGHIJKLMNOPQRSTUVWXYZ'' ''abcdefghijklmnopqrstuvwxyz'') c of
        Some d \<Rightarrow> d
      | None \<Rightarrow> c)"

definition same_name :: "string \<Rightarrow> string \<Rightarrow> bool" where
  "same_name a b = (map lower_char a = map lower_char b)"

fun join :: "string \<Rightarrow> string list \<Rightarrow> string" where
  "join sep [] = []"
| "join sep [x] = x"
| "join sep (x # y # ys) = x @ sep @ join sep (y # ys)"

definition headers_get :: "Headers \<Rightarrow> string \<Rightarrow> string option" where
  "headers_get hs name =
     (case filter (\<lambda>kv. same_name (fst kv) name) hs of
        [] \<Rightarrow> None
      | kvs \<Rightarrow> Some (join '', '' (map snd kvs)))"

definition headers_set :: "Headers \<Rightarrow> string \<Rightarrow> string \<Rightarrow> Headers" where
  "headers_set hs name v = filter (\<lambda>kv. \<not> same_name (fst kv) name) hs @ [(name, v)]"

definition immutable_headers_error :: thrown where
  "immutable_headers_error = ErrorObj ''Cannot change header: headers are immutable''"

definition set_header :: "response \<Rightarrow> string \<Rightarrow> string \<Rightarrow> outcome" where
  "set_header r name v =
     (if immutable_headers r then Inl immutable_headers_error
      else Inr (r\<lparr>headers := headers_set (headers r) name v\<rparr>))"

definition then_set :: "outcome \<Rightarrow> string \<Rightarrow> string \<Rightarrow> outcome" where
  "then_set out name v = (case out of Inl e \<Rightarrow> Inl e | Inr r \<Rightarrow> set_header r name v)"

subsection \<open>Numbers as text\<close>

text \<open>
  \<open>Number.prototype.toString\<close> on an integer (below \<open>10^21\<close> in size) prints its decimal
  digits, with a minus sign when negative.
\<close>

fun digits :: "nat \<Rightarrow> string" where
  "digits n =
     (if n < 10 then [''0123456789'' ! n]
      else digits (n div 10) @ [''0123456789'' ! (n mod 10)])"

declare digits.simps [simp del]

definition toString :: "int \<Rightarrow> string" where
  "toString i = (if i < 0 then CHR ''-'' # digits (nat (- i)) else digits (nat i))"

section \<open>Middleware as programs over a continuation\<close>

text \<open>
  A middleware receives the request and the continuation \<open>next\<close>. What it can do to the
  dispatcher is to call \<open>next()\<close> and wait for the outcome, any number of times, and in
  the end to return a value (for a plain middleware: to resolve with a response or to
  reject with a thrown value). \<open>Next k\<close> is a call of \<open>next()\<close> whose settled outcome,
  a rejection included (a middleware may catch it), is passed to \<open>k\<close>.
  \<open>run\<close> executes such a program against the continuation it is given, which acts on
  a state of its own.
  A middleware is taken to wait for each call of \<open>next()\<close> before it goes on (calls are
  not overlapped), and the dispatcher passes the same request to every stage; what a
  stage does to its own state or to the request is not part of the dispatcher's model.
\<close>

datatype 'a prog = Done 'a | Next "outcome \<Rightarrow> 'a prog"

type_synonym Middleware = "request \<Rightarrow> outcome prog"

type_synonym Handler = "request \<Rightarrow> outcome"

primrec run :: "'a prog \<Rightarrow> ('s \<Rightarrow> outcome \<times> 's) \<Rightarrow> 's \<Rightarrow> 'a \<times> 's" where
  "run (Done a) nxt s = (a, s)"
| "run (Next k) nxt s = (case nxt s of (out, s') \<Rightarrow> run (k out) nxt s')"

section \<open>The dispatcher: compose\<close>

text \<open>
  \<open>MiddlewareOptions\<close> has two optional fields. \<open>chain\<close> is the environment the closure
  \<open>dispatch\<close> sees once the defaults have been filled in.
  The state of one request is the variable \<open>index\<close>, starting at \<open>-1\<close>. The field
  \<open>ran\<close> is a log added for verification only: the stage number is appended
  immediately before the stage's function (a middleware, or the handler at
  \<open>length middlewares\<close>) is invoked; the code never reads it.
  The \<open>console.error\<close> lines are not modelled.
\<close>

record MiddlewareOptions =
  continueOnError :: "bool option"
  errorHandler :: "(thrown \<Rightarrow> request \<Rightarrow> outcome) option"

record chain =
  middlewares :: "Middleware list"
  handler :: Handler
  continue_on_error :: bool
  error_handler :: "thrown \<Rightarrow> request \<Rightarrow> outcome"

record dstate =
  index :: int
  ran :: "nat list"

definition defaultErrorHandler :: "thrown \<Rightarrow> request \<Rightarrow> outcome" where
  \<open>defaultErrorHandler error req =
     Inr \<lparr>status = 500,
          headers = [(''Content-Type'', ''application/json'')],
          body = Some ''{"error":"Internal Server Error"}'',
          immutable_headers = False\<rparr>\<close>

function dispatch :: "chain \<Rightarrow> request \<Rightarrow> nat \<Rightarrow> dstate \<Rightarrow> outcome \<times> dstate" where
  "dispatch c req i s =
    (if int i \<le> index s then (Inl (ErrorObj ''next() called multiple times''), s)
     else
       let s1 = s\<lparr>index := int i\<rparr> in
       if length (middlewares c) < i then (Inl (ErrorObj ''No handler found''), s1)
       else
         case (if i = length (middlewares c)
               then (handler c req, s1\<lparr>ran := ran s1 @ [i]\<rparr>)
               else run ((middlewares c ! i) req) (dispatch c req (i + 1))
                      (s1\<lparr>ran := ran s1 @ [i]\<rparr>))
         of (Inr r, s2) \<Rightarrow> (Inr r, s2)
          | (Inl e, s2) \<Rightarrow>
              if continue_on_error c then dispatch c req (i + 1) s2
              else (error_handler c e req, s2))"
  by pat_completeness auto
termination
  by (relation "measure (\<lambda>(c, req, i, s). length (middlewares c) + 1 - i)") auto

declare dispatch.simps [simp del]

definition make_chain :: "Middleware list \<Rightarrow> Handler \<Rightarrow> MiddlewareOptions \<Rightarrow> chain" where
  "make_chain mws h options =
     \<lparr>middlewares = mws, handler = h,
      continue_on_error = (case continueOnError options of None \<Rightarrow> False | Some b \<Rightarrow> b),
      error_handler = (case errorHandler options of None \<Rightarrow> defaultErrorHandler | Some f \<Rightarrow> f)\<rparr>"

definition composed_run :: "Middleware list \<Rightarrow> Handler \<Rightarrow> MiddlewareOptions \<Rightarrow> request
    \<Rightarrow> outcome \<times> dstate" where
  "composed_run mws h options req =
     dispatch (make_chain mws h options) req 0 \<lparr>index = - 1, ran = []\<rparr>"

definition compose :: "Middleware list \<Rightarrow> Handler \<Rightarrow> MiddlewareOptions \<Rightarrow> Handler" where
  "compose mws h options req = fst (composed_run mws h options req)"

section \<open>The context store\<close>

text \<open>
  A context is a JavaScript object, so what \<open>getContext\<close> returns is a reference, and
  \<open>context[key]\<close> reads and writes follow the rules of ordinary objects. The heap maps a
  reference to an object: its own properties and its prototype (\<open>None\<close> is \<open>null\<close>).
  A property is a writable data property or the accessor \<open>__proto__\<close> that
  \<open>Object.prototype\<close> has; objects with other accessors, read-only properties or
  that are not extensible are outside the model, as are the values of symbols as keys.
  \<open>Object.prototype\<close> is the object at \<open>object_prototype\<close>, and \<open>{}\<close> allocates the
  next free reference for an object without own properties whose prototype it is.
  A value is \<open>undefined\<close>, \<open>null\<close>, a primitive (by its text) or a reference.

  Reading \<open>o[key]\<close> looks the key up along the prototype chain; the \<open>__proto__\<close> getter
  returns the prototype of \<open>o\<close>. Writing \<open>o[key] = v\<close> (the module is strict code) calls
  the \<open>__proto__\<close> setter when the lookup ends at the accessor: it ignores a value that is
  neither an object nor \<open>null\<close>, and otherwise sets the prototype of \<open>o\<close>, throwing a
  \<open>TypeError\<close> when that would close a cycle. In every other case it creates or
  updates the own data property of \<open>o\<close>. The chain is followed for at most
  \<open>next_ref + 1\<close> steps, which is all of it when the chain has no cycle and lies below
  \<open>next_ref\<close>.
  The request's field \<open>context\<close> holds a reference or is undefined (\<open>None\<close>). A
  reference, once stored, is truthy, so \<open>req.context || {}\<close> allocates only when the
  field is undefined.
\<close>

datatype jsvalue = Undefined | Null | Primitive string | Ref nat

datatype property = Data jsvalue | ProtoAccessor

record jsobject =
  own :: "string \<rightharpoonup> property"
  prototype :: "nat option"

record heap =
  next_ref :: nat
  object_prototype :: nat
  objects :: "nat \<Rightarrow> jsobject"

primrec find_property :: "nat \<Rightarrow> heap \<Rightarrow> nat \<Rightarrow> string \<Rightarrow> property option" where
  "find_property 0 h a key = None"
| "find_property (Suc fuel) h a key =
     (case own (objects h a) key of
        Some p \<Rightarrow> Some p
      | None \<Rightarrow>
          (case prototype (objects h a) of
             None \<Rightarrow> None
           | Some b \<Rightarrow> find_property fuel h b key))"

primrec in_chain :: "nat \<Rightarrow> heap \<Rightarrow> nat \<Rightarrow> nat \<Rightarrow> bool" where
  "in_chain 0 h b a = False"
| "in_chain (Suc fuel) h b a =
     (b = a \<or> (case prototype (objects h b) of None \<Rightarrow> False | Some c \<Rightarrow> in_chain fuel h c a))"

definition chain_fuel :: "heap \<Rightarrow> nat" where
  "chain_fuel h = Suc (next_ref h)"

definition new_object :: "heap \<Rightarrow> nat \<times> heap" where
  "new_object h =
     (next_ref h,
      h\<lparr>next_ref := next_ref h + 1,
        objects := (objects h)
          (next_ref h := \<lparr>own = Map.empty, prototype = Some (object_prototype h)\<rparr>)\<rparr>)"

definition read_key :: "nat \<Rightarrow> string \<Rightarrow> heap \<Rightarrow> jsvalue" where
  "read_key a key h =
     (case find_property (chain_fuel h) h a key of
        None \<Rightarrow> Undefined
      | Some (Data v) \<Rightarrow> v
      | Some ProtoAccessor \<Rightarrow>
          (case prototype (objects h a) of None \<Rightarrow> Null | Some p \<Rightarrow> Ref p))"

definition set_prototype :: "nat \<Rightarrow> nat option \<Rightarrow> heap \<Rightarrow> thrown + heap" where
  "set_prototype a p h =
     (if prototype (objects h a) = p then Inr h
      else if (case p of None \<Rightarrow> False | Some b \<Rightarrow> in_chain (chain_fuel h) h b a)
      then Inl (ErrorObj ''Cyclic __proto__ value'')
      else Inr (h\<lparr>objects := (objects h)(a := (objects h a)\<lparr>prototype := p\<rparr>)\<rparr>))"

definition write_key :: "nat \<Rightarrow> string \<Rightarrow> jsvalue \<Rightarrow> heap \<Rightarrow> thrown + heap" where
  "write_key a key v h =
     (case find_property (chain_fuel h) h a key of
        Some ProtoAccessor \<Rightarrow>
          (case v of
             Ref b \<Rightarrow> set_prototype a (Some b) h
           | Null \<Rightarrow> set_prototype a None h
           | Undefined \<Rightarrow> Inr h
           | Primitive text \<Rightarrow> Inr h)
      | _ \<Rightarrow>
          Inr (h\<lparr>objects := (objects h)
                 (a := (objects h a)\<lparr>own := (own (objects h a))(key \<mapsto> Data v)\<rparr>)\<rparr>))"

definition getContext :: "request \<Rightarrow> heap \<Rightarrow> nat \<times> heap" where
  "getContext req h = (case context req of Some a \<Rightarrow> (a, h) | None \<Rightarrow> new_object h)"

definition setContext :: "request \<Rightarrow> string \<Rightarrow> jsvalue \<Rightarrow> heap \<Rightarrow> thrown + request \<times> heap" where
  "setContext req key v h =
     (case getContext req h of
        (ctx, h1) \<Rightarrow>
          (case write_key ctx key v h1 of
             Inl e \<Rightarrow> Inl e
           | Inr h2 \<Rightarrow> Inr (req\<lparr>context := Some ctx\<rparr>, h2)))"

section \<open>The rate limiter\<close>

text \<open>
  \<open>clients\<close> is the table the middleware instance owns. \<open>Date.now()\<close> is the argument
  \<open>now\<close>. The body of the middleware is split at \<open>await next()\<close>: the lines before it
  decide between the 429 response and going on, the lines after it adjust the counter
  and set the headers. Between the two, in a sequence of requests handled one after the
  other, nothing else touches the table.
\<close>

record client =
  count :: int
  resetTime :: int

type_synonym clients = "string \<rightharpoonup> client"

record RateLimitOptions =
  windowMs :: int
  maxRequests :: int
  keyGenerator :: "(request \<Rightarrow> string) option"
  skipSuccessfulRequests :: "bool option"

definition key_of :: "RateLimitOptions \<Rightarrow> request \<Rightarrow> string" where
  "key_of opts req = (case keyGenerator opts of None \<Rightarrow> url_hostname req | Some g \<Rightarrow> g req)"

definition skip_successful :: "RateLimitOptions \<Rightarrow> bool" where
  "skip_successful opts = (case skipSuccessfulRequests opts of None \<Rightarrow> False | Some b \<Rightarrow> b)"

definition retry_after :: "client \<Rightarrow> int \<Rightarrow> int" where
  "retry_after cl now = \<lceil>real_of_int (resetTime cl - now) / 1000\<rceil>"

definition too_many_requests :: "RateLimitOptions \<Rightarrow> int \<Rightarrow> client \<Rightarrow> response" where
  \<open>too_many_requests opts now cl =
     \<lparr>status = 429,
      headers =
        [(''Content-Type'', ''application/json''),
         (''Retry-After'', toString (retry_after cl now)),
         (''X-RateLimit-Limit'', toString (maxRequests opts)),
         (''X-RateLimit-Remaining'', toString (max 0 (maxRequests opts - count cl))),
         (''X-RateLimit-Reset'', toString (resetTime cl))],
      body = Some (''{"error":"Too Many Requests","retryAfter":''
                   @ toString (retry_after cl now) @ ''}''),
      immutable_headers = False\<rparr>\<close>

definition rateLimit_before_next ::
    "RateLimitOptions \<Rightarrow> int \<Rightarrow> request \<Rightarrow> clients \<Rightarrow> response option \<times> clients" where
  "rateLimit_before_next opts now req cls =
     (let key = key_of opts req in
      case cls key of
        None \<Rightarrow> (None, cls(key \<mapsto> \<lparr>count = 1, resetTime = now + windowMs opts\<rparr>))
      | Some cl \<Rightarrow>
          if now > resetTime cl
          then (None, cls(key \<mapsto> \<lparr>count = 1, resetTime = now + windowMs opts\<rparr>))
          else
            let cl' = cl\<lparr>count := count cl + 1\<rparr>; cls' = cls(key \<mapsto> cl') in
            if count cl' > maxRequests opts
            then (Some (too_many_requests opts now cl'), cls')
            else (None, cls'))"

definition rate_limit_headers :: "RateLimitOptions \<Rightarrow> client \<Rightarrow> response \<Rightarrow> outcome" where
  "rate_limit_headers opts cur resp =
     then_set
       (then_set
          (set_header resp ''X-RateLimit-Limit'' (toString (maxRequests opts)))
          ''X-RateLimit-Remaining'' (toString (max 0 (maxRequests opts - count cur))))
       ''X-RateLimit-Reset'' (toString (resetTime cur))"

definition rateLimit_after_next ::
    "RateLimitOptions \<Rightarrow> request \<Rightarrow> response \<Rightarrow> clients \<Rightarrow> outcome \<times> clients" where
  "rateLimit_after_next opts req resp cls =
     (let key = key_of opts req;
          cls1 = (if skip_successful opts \<and> status resp < 400
                  then (case cls key of
                          Some cur \<Rightarrow> cls(key \<mapsto> cur\<lparr>count := max 0 (count cur - 1)\<rparr>)
                        | None \<Rightarrow> cls)
                  else cls)
      in case cls1 key of
           Some cur \<Rightarrow> (rate_limit_headers opts cur resp, cls1)
         | None \<Rightarrow> (Inr resp, cls1))"

definition rateLimit ::
    "RateLimitOptions \<Rightarrow> int \<Rightarrow> request \<Rightarrow> clients \<Rightarrow> (outcome \<times> clients) prog" where
  "rateLimit opts now req cls =
     (case rateLimit_before_next opts now req cls of
        (Some rejected, cls1) \<Rightarrow> Done (Inr rejected, cls1)
      | (None, cls1) \<Rightarrow>
          Next (\<lambda>out. case out of
                  Inl e \<Rightarrow> Done (Inl e, cls1)
                | Inr resp \<Rightarrow> Done (rateLimit_after_next opts req resp cls1)))"

text \<open>
  Requests handled one after the other by one rate limiter. Each request comes with its
  reading of the clock and with the response its continuation resolves with; the
  continuation counts how often it is invoked. For each request the result lists the
  outcome, the number of invocations of the continuation and the table afterwards.
\<close>

fun serve :: "RateLimitOptions \<Rightarrow> clients \<Rightarrow> (int \<times> request \<times> response) list
    \<Rightarrow> (outcome \<times> nat \<times> clients) list" where
  "serve opts cls [] = []"
| "serve opts cls ((now, req, resp) # rest) =
     (case run (rateLimit opts now req cls) (\<lambda>n. (Inr resp, Suc n)) 0 of
        ((out, cls'), calls) \<Rightarrow> (out, calls, cls') # serve opts cls' rest)"

section \<open>The timeout guard\<close>

text \<open>
  The middleware starts a timer, calls \<open>next()\<close> and waits for the race between the
  continuation and a promise that the timer's firing rejects with
  \<open>Error("Request timeout")\<close>. The race is observed through its result: which of the
  two settled first. \<open>timeoutMs\<close> is the delay the timer is started with; a timer that has
  fired is no longer pending and \<open>clearTimeout\<close> leaves it as it is.
\<close>

datatype race = NextSettled outcome | DeadlineFired

datatype timer = Pending int | Fired | Cleared

definition clearTimeout :: "timer \<Rightarrow> timer" where
  "clearTimeout t = (case t of Pending d \<Rightarrow> Cleared | Fired \<Rightarrow> Fired | Cleared \<Rightarrow> Cleared)"

definition request_timeout :: response where
  \<open>request_timeout =
     \<lparr>status = 408,
      headers = [(''Content-Type'', ''application/json'')],
      body = Some ''{"error":"Request Timeout"}'',
      immutable_headers = False\<rparr>\<close>

definition timeout_catch :: "thrown \<Rightarrow> timer \<Rightarrow> outcome \<times> timer" where
  "timeout_catch error t =
     (let t' = clearTimeout t in
      case error of
        ErrorObj message \<Rightarrow>
          if message = ''Request timeout'' then (Inr request_timeout, t') else (Inl error, t')
      | NonError v \<Rightarrow> (Inl error, t'))"

definition timeout :: "int \<Rightarrow> race \<Rightarrow> outcome \<times> timer" where
  "timeout timeoutMs first =
     (let timeoutId = Pending timeoutMs in
      case first of
        NextSettled (Inr resp) \<Rightarrow> (Inr resp, clearTimeout timeoutId)
      | NextSettled (Inl error) \<Rightarrow> timeout_catch error timeoutId
      | DeadlineFired \<Rightarrow> timeout_catch (ErrorObj ''Request timeout'') Fired)"

section \<open>CORS\<close>

text \<open>
  The option \<open>origin\<close> is a string or an array of strings. The fields carry the prefix
  \<open>cors_\<close> because \<open>headers\<close> is the field of a response.
\<close>

datatype origin_option = OriginString string | OriginList "string list"

record CorsOptions =
  cors_origin :: "origin_option option"
  cors_methods :: "string list option"
  cors_headers :: "string list option"
  cors_credentials :: "bool option"
  cors_maxAge :: "int option"

definition allow_origin :: "origin_option \<Rightarrow> request \<Rightarrow> response \<Rightarrow> outcome" where
  "allow_origin origin req resp =
     (case origin of
        OriginString s \<Rightarrow> set_header resp ''Access-Control-Allow-Origin'' s
      | OriginList allowed \<Rightarrow>
          (case headers_get (req_headers req) ''Origin'' of
             None \<Rightarrow> Inr resp
           | Some requestOrigin \<Rightarrow>
               if requestOrigin \<noteq> [] \<and> requestOrigin \<in> set allowed
               then set_header resp ''Access-Control-Allow-Origin'' requestOrigin
               else Inr resp))"

definition allow_credentials :: "bool \<Rightarrow> outcome \<Rightarrow> outcome" where
  "allow_credentials credentials out =
     (if credentials then then_set out ''Access-Control-Allow-Credentials'' ''true''
      else out)"

definition cors :: "CorsOptions \<Rightarrow> Middleware" where
  "cors options req =
     (let origin = (case cors_origin options of None \<Rightarrow> OriginString ''*'' | Some x \<Rightarrow> x);
          methods = (case cors_methods options of
                       None \<Rightarrow> [''GET'', ''POST'', ''PUT'', ''DELETE'', ''OPTIONS'']
                     | Some x \<Rightarrow> x);
          hdrs = (case cors_headers options of
                    None \<Rightarrow> [''Content-Type'', ''Authorization'']
                  | Some x \<Rightarrow> x);
          credentials = (case cors_credentials options of None \<Rightarrow> False | Some x \<Rightarrow> x);
          maxAge = (case cors_maxAge options of None \<Rightarrow> 86400 | Some x \<Rightarrow> x)
      in
      if method req = ''OPTIONS''
      then
        Done
          (allow_credentials credentials
            (then_set
              (then_set
                (then_set
                  (allow_origin origin req
                     \<lparr>status = 204, headers = [], body = None, immutable_headers = False\<rparr>)
                  ''Access-Control-Allow-Methods'' (join '', '' methods))
                ''Access-Control-Allow-Headers'' (join '', '' hdrs))
              ''Access-Control-Max-Age'' (toString maxAge)))
      else
        Next (\<lambda>out. case out of
                Inl e \<Rightarrow> Done (Inl e)
              | Inr resp \<Rightarrow> Done (allow_credentials credentials (allow_origin origin req resp))))"

section \<open>Auxiliary notions for the proofs\<close>

text \<open>
  The two errors \<open>dispatch\<close> itself raises, the body of \<open>dispatch\<close> between the
  bookkeeping of \<open>index\<close> and the \<open>catch\<close> clause, and the invariant of the log:
  no stage is logged twice and every logged stage is at most \<open>index\<close>.
\<close>

abbreviation DoubleInvocation :: thrown where
  "DoubleInvocation \<equiv> ErrorObj ''next() called multiple times''"

abbreviation NoHandlerFound :: thrown where
  "NoHandlerFound \<equiv> ErrorObj ''No handler found''"

definition stage :: "chain \<Rightarrow> request \<Rightarrow> nat \<Rightarrow> dstate \<Rightarrow> outcome \<times> dstate" where
  "stage c req i s =
     (let s1 = s\<lparr>index := int i, ran := ran s @ [i]\<rparr> in
      if i = length (middlewares c) then (handler c req, s1)
      else run ((middlewares c ! i) req) (dispatch c req (i + 1)) s1)"

definition log_ok :: "dstate \<Rightarrow> bool" where
  "log_ok s = (distinct (ran s) \<and> list_all (\<lambda>j. int j \<le> index s) (ran s))"

text \<open>Nothing beyond stage \<open>i\<close> has been entered or logged.\<close>

definition stages_up_to :: "nat \<Rightarrow> dstate \<Rightarrow> bool" where
  "stages_up_to i s = (index s \<le> int i \<and> list_all (\<lambda>j. j \<le> i) (ran s))"

section \<open>Example requests, handlers and middlewares\<close>

text \<open>The concrete inputs at which the theorems below are instantiated.\<close>

definition get_request :: request where
  "get_request =
     \<lparr>method = ''GET'', url_hostname = ''localhost'', req_headers = [], context = None\<rparr>"

definition ok_response :: response where
  "ok_response =
     \<lparr>status = 200, headers = [], body = Some ''ok'', immutable_headers = False\<rparr>"

definition redirect_response :: response where
  "redirect_response =
     \<lparr>status = 302, headers = [(''location'', ''https://example.com/'')], body = None,
      immutable_headers = True\<rparr>"

definition ok_handler :: Handler where
  "ok_handler req = Inr ok_response"

definition raising_handler :: Handler where
  "raising_handler req = Inl (ErrorObj ''boom'')"

definition pass_through :: Middleware where
  "pass_through req = Next Done"

definition calls_next_twice :: Middleware where
  "calls_next_twice req = Next (\<lambda>first. Next Done)"

definition raises_after_next :: Middleware where
  "raises_after_next req = Next (\<lambda>out. Done (Inl (ErrorObj ''late'')))"

definition internal_server_error :: response where
  \<open>internal_server_error =
     \<lparr>status = 500, headers = [(''Content-Type'', ''application/json'')],
      body = Some ''{"error":"Internal Server Error"}'', immutable_headers = False\<rparr>\<close>

definition limit_three :: RateLimitOptions where
  "limit_three =
     \<lparr>windowMs = 60000, maxRequests = 3, keyGenerator = None, skipSuccessfulRequests = None\<rparr>"

definition skip_three :: RateLimitOptions where
  "skip_three =
     \<lparr>windowMs = 60000, maxRequests = 3, keyGenerator = None,
      skipSuccessfulRequests = Some True\<rparr>"

definition exhausted_clients :: clients where
  "exhausted_clients = [''localhost'' \<mapsto> \<lparr>count = 3, resetTime = 1000\<rparr>]"

text \<open>
  A fragment of the initial heap: \<open>Object.prototype\<close> at reference 0 with its accessor
  \<open>__proto__\<close> and its method \<open>toString\<close>, a function object at reference 1.
\<close>

definition realm_heap :: heap where
  "realm_heap =
     \<lparr>next_ref = 2, object_prototype = 0,
      objects = (\<lambda>a. \<lparr>own = Map.empty, prototype = None\<rparr>)
        (0 := \<lparr>own = [''__proto__'' \<mapsto> ProtoAccessor, ''toString'' \<mapsto> Data (Ref 1)],
                prototype = None\<rparr>,
         1 := \<lparr>own = Map.empty, prototype = Some 0\<rparr>)\<rparr>"

definition first_context :: nat where
  "first_context = fst (getContext get_request realm_heap)"

definition after_first_write :: heap where
  "after_first_write =
     (case write_key first_context ''user'' (Primitive ''7'') (snd (getContext get_request realm_heap)) of
        Inl e \<Rightarrow> realm_heap
      | Inr h \<Rightarrow> h)"

definition options_request :: request where
  "options_request =
     \<lparr>method = ''OPTIONS'', url_hostname = ''localhost'',
      req_headers = [(''Origin'', ''https://b.com'')], context = None\<rparr>"

definition cors_allow_list :: CorsOptions where
  "cors_allow_list =
     \<lparr>cors_origin = Some (OriginList [''https://a.com'']), cors_methods = None,
      cors_headers = None, cors_credentials = None, cors_maxAge = None\<rparr>"

section \<open>Properties of the dispatcher\<close>

lemma dispatch_twice:
  "int i \<le> index s \<Longrightarrow> dispatch c req i s = (Inl (ErrorObj ''next() called multiple times''), s)"
  by (subst dispatch.simps) simp

lemma dispatch_beyond:
  "\<not> int i \<le> index s \<Longrightarrow> length (middlewares c) < i
   \<Longrightarrow> dispatch c req i s = (Inl (ErrorObj ''No handler found''), s\<lparr>index := int i\<rparr>)"
  by (subst dispatch.simps) (simp add: Let_def)

lemma dispatch_stage:
  assumes "\<not> int i \<le> index s" and "\<not> length (middlewares c) < i"
    and "stage c req i s = (res, s2)"
  shows "dispatch c req i s =
           (case res of
              Inr r \<Rightarrow> (Inr r, s2)
            | Inl e \<Rightarrow> if continue_on_error c then dispatch c req (i + 1) s2
                       else (error_handler c e req, s2))"
  using assms by (subst dispatch.simps) (auto simp: Let_def stage_def split: if_splits sum.splits)

lemma run_preserves:
  assumes "\<And>s. P s \<Longrightarrow> P (snd (f s))"
  shows "P s \<Longrightarrow> P (snd (run p f s))"
proof (induction p arbitrary: s)
  case (Done a)
  then show ?case by simp
next
  case (Next k)
  obtain out s' where f: "f s = (out, s')" by (cases "f s")
  with assms [of s] Next.prems have "P s'" by simp
  then have "P (snd (run (k out) f s'))" by (rule Next.IH [OF rangeI])
  with f show ?case by simp
qed

lemma dispatch_preserves:
  assumes enter: "\<And>s i. Q s \<Longrightarrow> \<not> int i \<le> index s
      \<Longrightarrow> Q (s\<lparr>index := int i\<rparr>) \<and> Q (s\<lparr>index := int i, ran := ran s @ [i]\<rparr>)"
  shows "Q s \<Longrightarrow> Q (snd (dispatch c req i s))"
proof (induction c req i s rule: dispatch.induct)
  case (1 c req i s)
  show ?case
  proof (cases "int i \<le> index s")
    case True
    with "1.prems" show ?thesis by (subst dispatch.simps) simp
  next
    case fresh: False
    show ?thesis
    proof (cases "length (middlewares c) < i")
      case True
      with fresh enter [OF "1.prems" fresh] show ?thesis
        by (subst dispatch.simps) (simp add: Let_def)
    next
      case inside: False
      let ?s1 = "s\<lparr>index := int i\<rparr>"
      let ?s1' = "?s1\<lparr>ran := ran ?s1 @ [i]\<rparr>"
      let ?body = "if i = length (middlewares c) then (handler c req, ?s1')
                   else run ((middlewares c ! i) req) (dispatch c req (i + 1)) ?s1'"
      obtain res s2 where body: "?body = (res, s2)" by (cases ?body)
      have entered: "Q ?s1'"
        using enter [OF "1.prems" fresh] by simp
      have s2: "Q s2"
      proof (cases "i = length (middlewares c)")
        case True
        with body entered show ?thesis by simp
      next
        case False
        have "Q (snd (run ((middlewares c ! i) req) (dispatch c req (i + 1)) ?s1'))"
          using entered
          by (rule run_preserves [rotated]) (rule "1.IH"(1) [OF fresh refl inside False])
        with body False show ?thesis by simp
      qed
      show ?thesis
      proof (cases res)
        case (Inr r)
        with body fresh inside s2 show ?thesis
          by (subst dispatch.simps) (simp add: Let_def)
      next
        case (Inl e)
        show ?thesis
        proof (cases "continue_on_error c")
          case True
          have "Q (snd (dispatch c req (i + 1) s2))"
            using "1.IH"(2) [OF fresh refl inside body [symmetric] Inl True s2] .
          with body fresh inside Inl True show ?thesis
            by (subst dispatch.simps) (simp add: Let_def)
        next
          case False
          with body fresh inside Inl s2 show ?thesis
            by (subst dispatch.simps) (simp add: Let_def)
        qed
      qed
    qed
  qed
qed

lemma dispatch_index_mono: "lo \<le> index s \<Longrightarrow> lo \<le> index (snd (dispatch c req i s))"
  by (rule dispatch_preserves [where Q = "\<lambda>s. lo \<le> index s"]) auto

lemma dispatch_log_ok: "log_ok s \<Longrightarrow> log_ok (snd (dispatch c req i s))"
  by (rule dispatch_preserves [where Q = log_ok]) (auto simp: log_ok_def list_all_iff)

lemma run_index_mono:
  "lo \<le> index s \<Longrightarrow> lo \<le> index (snd (run p (dispatch c req i) s))"
  by (rule run_preserves [where P = "\<lambda>s. lo \<le> index s"]) (rule dispatch_index_mono)

lemma stage_index_ge: "int i \<le> index (snd (stage c req i s))"
  by (simp add: stage_def Let_def run_index_mono)

lemma dispatch_index_ge: "int i \<le> index (snd (dispatch c req i s))"
proof (cases "int i \<le> index s")
  case True
  then show ?thesis by (simp add: dispatch_twice)
next
  case fresh: False
  show ?thesis
  proof (cases "length (middlewares c) < i")
    case True
    with fresh show ?thesis by (simp add: dispatch_beyond)
  next
    case inside: False
    obtain res s2 where body: "stage c req i s = (res, s2)" by (cases "stage c req i s")
    with stage_index_ge [of i c req s] have s2: "int i \<le> index s2" by simp
    then have "int i \<le> index (snd (dispatch c req (i + 1) s2))"
      by (rule dispatch_index_mono)
    with s2 show ?thesis
      by (simp add: dispatch_stage [OF fresh inside body] split: sum.split)
  qed
qed

lemma dispatch_again:
  "dispatch c req i (snd (dispatch c req i s))
     = (Inl (ErrorObj ''next() called multiple times''), snd (dispatch c req i s))"
  using dispatch_index_ge [of i c req s] by (rule dispatch_twice)

lemma composed_run_distinct: "distinct (ran (snd (composed_run mws h options req)))"
proof -
  have "log_ok \<lparr>index = - 1, ran = []\<rparr>" by (simp add: log_ok_def)
  then have "log_ok (snd (composed_run mws h options req))"
    unfolding composed_run_def by (rule dispatch_log_ok)
  then show ?thesis by (simp add: log_ok_def)
qed

lemma stage_pass_through:
  assumes "i < length (middlewares c)" and "(middlewares c ! i) req = Next Done"
  shows "stage c req i s = dispatch c req (i + 1) (s\<lparr>index := int i, ran := ran s @ [i]\<rparr>)"
  using assms by (simp add: stage_def Let_def)

lemma prefix_resolves:
  assumes pt: "\<forall>j<n. (middlewares c ! j) req = Next Done"
    and n: "n \<le> length (middlewares c)"
    and at_n: "\<And>s. index s < int n \<Longrightarrow> fst (dispatch c req n s) = Inr resp"
  shows "i \<le> n \<Longrightarrow> index s < int i \<Longrightarrow> fst (dispatch c req i s) = Inr resp"
proof (induction "n - i" arbitrary: i s)
  case 0
  then have "i = n" by simp
  with 0 at_n show ?case by simp
next
  case (Suc d)
  then have lt: "i < n" by simp
  let ?s1 = "s\<lparr>index := int i, ran := ran s @ [i]\<rparr>"
  obtain res s2 where st: "stage c req i s = (res, s2)" by (cases "stage c req i s")
  from Suc lt have "fst (dispatch c req (i + 1) ?s1) = Inr resp"
    by (intro Suc.hyps(1)) auto
  with st lt n pt have "res = Inr resp"
    by (simp add: stage_pass_through)
  with Suc.prems lt n show ?case
    by (simp add: dispatch_stage [OF _ _ st])
qed

lemma prefix_rejects:
  assumes coe: "continue_on_error c"
    and pt: "\<forall>j<n. (middlewares c ! j) req = Next Done"
    and n: "n \<le> length (middlewares c)"
    and at_n: "\<And>s. index s < int n \<Longrightarrow> \<exists>e. fst (dispatch c req n s) = Inl e"
  shows "i \<le> n \<Longrightarrow> index s < int i
         \<Longrightarrow> \<exists>e. fst (dispatch c req i s) = Inl e
                \<and> (i < n \<longrightarrow> e = ErrorObj ''next() called multiple times'')"
proof (induction "n - i" arbitrary: i s)
  case 0
  then have "i = n" by simp
  with 0 at_n [of s] show ?case by simp
next
  case (Suc d)
  then have lt: "i < n" by simp
  let ?s1 = "s\<lparr>index := int i, ran := ran s @ [i]\<rparr>"
  obtain res s2 where st: "stage c req i s = (res, s2)" by (cases "stage c req i s")
  with lt n pt have d: "dispatch c req (i + 1) ?s1 = (res, s2)"
    by (simp add: stage_pass_through)
  from Suc lt have "\<exists>e. fst (dispatch c req (i + 1) ?s1) = Inl e
      \<and> (i + 1 < n \<longrightarrow> e = ErrorObj ''next() called multiple times'')"
    by (intro Suc.hyps(1)) auto
  with d obtain e where res: "res = Inl e" by auto
  from d dispatch_index_ge [of "i + 1" c req ?s1] have "int (i + 1) \<le> index s2" by simp
  then have "dispatch c req (i + 1) s2 = (Inl (ErrorObj ''next() called multiple times''), s2)"
    by (rule dispatch_twice)
  with Suc.prems lt n coe res show ?case
    by (simp add: dispatch_stage [OF _ _ st])
qed

text \<open>continueOnError = true: the handler raises.\<close>

lemma handler_raises_continue:
  assumes coe: "continue_on_error c" and h: "handler c req = Inl e"
    and fresh: "index s < int (length (middlewares c))"
  shows "fst (dispatch c req (length (middlewares c)) s) = Inl (ErrorObj ''No handler found'')"
proof -
  let ?n = "length (middlewares c)"
  let ?s1 = "s\<lparr>index := int ?n, ran := ran s @ [?n]\<rparr>"
  have st: "stage c req ?n s = (Inl e, ?s1)"
    using h by (simp add: stage_def Let_def)
  have "dispatch c req (?n + 1) ?s1 = (Inl (ErrorObj ''No handler found''), ?s1\<lparr>index := int (?n + 1)\<rparr>)"
    by (rule dispatch_beyond) simp_all
  with coe fresh show ?thesis
    by (simp add: dispatch_stage [OF _ _ st])
qed

text \<open>continueOnError = false: a response whenever the error handler gives one.\<close>

lemma no_continue_resolves:
  assumes coe: "\<not> continue_on_error c"
    and eh: "\<forall>e. \<exists>r. error_handler c e req = Inr r"
    and fresh: "index s < int i" and inside: "i \<le> length (middlewares c)"
  shows "\<exists>r. fst (dispatch c req i s) = Inr r"
proof -
  obtain res s2 where st: "stage c req i s = (res, s2)" by (cases "stage c req i s")
  show ?thesis
  proof (cases res)
    case (Inl e)
    from eh obtain r where "error_handler c e req = Inr r" by blast
    with coe fresh inside Inl show ?thesis
      by (simp add: dispatch_stage [OF _ _ st])
  next
    case (Inr r)
    with fresh inside show ?thesis
      by (simp add: dispatch_stage [OF _ _ st])
  qed
qed

text \<open>continueOnError = true: only the dispatcher's own two errors reach the caller.\<close>

lemma continue_rejections:
  assumes coe: "continue_on_error c"
  shows "fst (dispatch c req i s) = Inl e
   \<Longrightarrow> e = ErrorObj ''next() called multiple times'' \<or> e = ErrorObj ''No handler found''"
proof (induction "length (middlewares c) + 1 - i" arbitrary: i s)
  case 0
  then have beyond: "length (middlewares c) < i" by simp
  show ?case
  proof (cases "int i \<le> index s")
    case True
    with "0.prems" show ?thesis by (simp add: dispatch_twice)
  next
    case False
    with beyond "0.prems" show ?thesis by (simp add: dispatch_beyond)
  qed
next
  case (Suc d)
  then have inside: "\<not> length (middlewares c) < i" by simp
  show ?case
  proof (cases "int i \<le> index s")
    case True
    with Suc.prems show ?thesis by (simp add: dispatch_twice)
  next
    case fresh: False
    obtain res s2 where st: "stage c req i s = (res, s2)" by (cases "stage c req i s")
    show ?thesis
    proof (cases res)
      case (Inr r)
      with Suc.prems show ?thesis by (simp add: dispatch_stage [OF fresh inside st])
    next
      case (Inl e')
      with Suc.prems coe have "fst (dispatch c req (i + 1) s2) = Inl e"
        by (simp add: dispatch_stage [OF fresh inside st])
      moreover from Suc.hyps(2) have "d = length (middlewares c) + 1 - (i + 1)" by simp
      ultimately show ?thesis by (rule Suc.hyps(1) [rotated])
    qed
  qed
qed

text \<open>A stage that invokes its continuation a second time and lets the error escape.\<close>

lemma stage_double_invoker:
  assumes lt: "i < length (middlewares c)"
    and m: "(middlewares c ! i) req = Next k"
    and k: "\<forall>out. \<exists>k2. k out = Next k2
              \<and> k2 (Inl (ErrorObj ''next() called multiple times''))
                  = Done (Inl (ErrorObj ''next() called multiple times''))"
  shows "\<exists>s2. stage c req i s = (Inl (ErrorObj ''next() called multiple times''), s2)
              \<and> int (i + 1) \<le> index s2"
proof -
  let ?s1 = "s\<lparr>index := int i, ran := ran s @ [i]\<rparr>"
  obtain out s2 where d: "dispatch c req (i + 1) ?s1 = (out, s2)"
    by (cases "dispatch c req (i + 1) ?s1")
  from k obtain k2 where k2: "k out = Next k2"
      "k2 (Inl (ErrorObj ''next() called multiple times''))
         = Done (Inl (ErrorObj ''next() called multiple times''))" by blast
  from d dispatch_index_ge [of "i + 1" c req ?s1] have ge: "int (i + 1) \<le> index s2" by simp
  then have "dispatch c req (i + 1) s2 = (Inl (ErrorObj ''next() called multiple times''), s2)"
    by (rule dispatch_twice)
  with lt m d k2 ge show ?thesis
    by (simp add: stage_def Let_def)
qed

lemma double_invoker_dispatch:
  assumes lt: "i < length (middlewares c)"
    and m: "(middlewares c ! i) req = Next k"
    and k: "\<forall>out. \<exists>k2. k out = Next k2
              \<and> k2 (Inl (ErrorObj ''next() called multiple times''))
                  = Done (Inl (ErrorObj ''next() called multiple times''))"
    and fresh: "index s < int i"
  shows "fst (dispatch c req i s) =
           (if continue_on_error c then Inl (ErrorObj ''next() called multiple times'')
            else error_handler c (ErrorObj ''next() called multiple times'') req)"
proof -
  from stage_double_invoker [OF lt m k, of s] obtain s2
    where st: "stage c req i s = (Inl (ErrorObj ''next() called multiple times''), s2)"
      and ge: "int (i + 1) \<le> index s2" by blast
  from ge have "dispatch c req (i + 1) s2 = (Inl (ErrorObj ''next() called multiple times''), s2)"
    by (rule dispatch_twice)
  with fresh lt show ?thesis
    by (simp add: dispatch_stage [OF _ _ st])
qed

lemma handler_resolves:
  assumes "handler c req = Inr resp" and "index s < int (length (middlewares c))"
  shows "fst (dispatch c req (length (middlewares c)) s) = Inr resp"
proof -
  have "stage c req (length (middlewares c)) s
        = (Inr resp, s\<lparr>index := int (length (middlewares c)), ran := ran s @ [length (middlewares c)]\<rparr>)"
    using assms by (simp add: stage_def Let_def)
  with assms(2) show ?thesis by (simp add: dispatch_stage)
qed

lemma compose_dispatch:
  "compose mws h options req = fst (dispatch (make_chain mws h options) req 0 \<lparr>index = - 1, ran = []\<rparr>)"
  by (simp add: compose_def composed_run_def)

lemma make_chain_simps [simp]:
  "middlewares (make_chain mws h options) = mws"
  "handler (make_chain mws h options) = h"
  "continue_on_error (make_chain mws h options) = (continueOnError options = Some True)"
  by (auto simp: make_chain_def split: option.splits)

text \<open>
  C1: when every middleware of the sequence (the empty sequence included) is a pure
  pass-through, that is, calls its continuation once and returns the continuation's
  result unchanged, and the terminal handler returns a response for the request, then the
  handler produced by \<open>compose\<close> returns exactly the terminal handler's response, under
  every choice of the options.
\<close>

theorem compose_pass_through:
  assumes "\<forall>m \<in> set mws. \<forall>r. m r = Next Done" and "h req = Inr resp"
  shows "compose mws h options req = Inr resp"
  unfolding compose_dispatch
proof (rule prefix_resolves [where n = "length mws"])
  show "\<forall>j<length mws. (middlewares (make_chain mws h options) ! j) req = Next Done"
    using assms(1) by simp
  show "fst (dispatch (make_chain mws h options) req (length mws) s) = Inr resp"
    if "index s < int (length mws)" for s
    using handler_resolves [of "make_chain mws h options" req resp s] assms(2) that by simp
qed simp_all

theorem compose_pass_through_witness:
  "compose [pass_through, pass_through] ok_handler
     \<lparr>continueOnError = Some True, errorHandler = None\<rparr> get_request = Inr ok_response
   \<and> compose [] ok_handler
     \<lparr>continueOnError = None, errorHandler = None\<rparr> get_request = Inr ok_response"
  using compose_pass_through [of "[pass_through, pass_through]" ok_handler get_request
      ok_response "\<lparr>continueOnError = Some True, errorHandler = None\<rparr>"]
    compose_pass_through [of "[]" ok_handler get_request
      ok_response "\<lparr>continueOnError = None, errorHandler = None\<rparr>"]
  by (simp add: pass_through_def ok_handler_def)

text \<open>
  C2 as stated fails under \<open>continueOnError = false\<close>: the error of the second invocation
  that a stage lets escape is caught by \<open>dispatch\<close> like any other error and handed to
  the error handler, and the caller receives the 500 response.
\<close>

theorem double_invocation_counterexample:
  "compose [calls_next_twice] ok_handler
      \<lparr>continueOnError = Some False, errorHandler = None\<rparr> get_request
    = Inr internal_server_error"
  by (simp add: compose_def composed_run_def make_chain_def dispatch.simps Let_def
      defaultErrorHandler_def calls_next_twice_def ok_handler_def internal_server_error_def)

text \<open>
  C2, amended: for every chain and under every error policy, invoking the continuation of
  a stage again, after it has been invoked, runs no stage: the invocation is rejected
  with the error \<open>next() called multiple times\<close>, raised into the invoking stage, and
  leaves the state as it is; and in the run of a request no stage is started twice.
  What the caller sees depends on the stage and on the policy. When the stages before
  are pass-through and the stage lets the error of its second invocation escape, the
  caller receives that error under \<open>continueOnError = true\<close>; under
  \<open>continueOnError = false\<close> the error is handed to the error handler and the caller
  receives the handler's response.
\<close>

theorem second_invocation_rejected:
  "dispatch c req i (snd (dispatch c req i s)) = (Inl DoubleInvocation, snd (dispatch c req i s))
   \<and> distinct (ran (snd (composed_run mws h options req)))
   \<and> ((\<forall>m \<in> set pre. \<forall>r. m r = Next Done)
        \<and> m req = Next k
        \<and> (\<forall>out. \<exists>k2. k out = Next k2 \<and> k2 (Inl DoubleInvocation) = Done (Inl DoubleInvocation))
       \<longrightarrow> (continueOnError options = Some True
              \<longrightarrow> compose (pre @ m # post) h options req = Inl DoubleInvocation)
         \<and> (continueOnError options \<noteq> Some True
              \<longrightarrow> (\<forall>resp. error_handler (make_chain (pre @ m # post) h options) DoubleInvocation req
                           = Inr resp
                    \<longrightarrow> compose (pre @ m # post) h options req = Inr resp)))"
proof (intro conjI impI allI)
  show "dispatch c req i (snd (dispatch c req i s)) = (Inl DoubleInvocation, snd (dispatch c req i s))"
    by (rule dispatch_again)
  show "distinct (ran (snd (composed_run mws h options req)))"
    by (rule composed_run_distinct)
next
  let ?c = "make_chain (pre @ m # post) h options"
  let ?n = "length pre"
  assume hyp: "(\<forall>m \<in> set pre. \<forall>r. m r = Next Done) \<and> m req = Next k
      \<and> (\<forall>out. \<exists>k2. k out = Next k2 \<and> k2 (Inl DoubleInvocation) = Done (Inl DoubleInvocation))"
  then have pt: "\<forall>j<?n. (middlewares ?c ! j) req = Next Done"
    by (simp add: nth_append)
  from hyp have at: "fst (dispatch ?c req ?n s) =
      (if continue_on_error ?c then Inl DoubleInvocation
       else error_handler ?c DoubleInvocation req)" if "index s < int ?n" for s
    using that by (intro double_invoker_dispatch [where k = k]) simp_all
  {
    assume coe: "continueOnError options = Some True"
    have "\<exists>e. fst (dispatch ?c req 0 \<lparr>index = - 1, ran = []\<rparr>) = Inl e
            \<and> (0 < ?n \<longrightarrow> e = DoubleInvocation)"
      using coe pt at by (intro prefix_rejects [where n = ?n]) simp_all
    moreover have "fst (dispatch ?c req 0 \<lparr>index = - 1, ran = []\<rparr>) = Inl DoubleInvocation"
      if "?n = 0"
      using at [of "\<lparr>index = - 1, ran = []\<rparr>"] coe that by simp
    ultimately show "compose (pre @ m # post) h options req = Inl DoubleInvocation"
      unfolding compose_dispatch by (cases "?n = 0") auto
  }
  {
    fix resp
    assume coe: "continueOnError options \<noteq> Some True"
      and eh: "error_handler ?c DoubleInvocation req = Inr resp"
    show "compose (pre @ m # post) h options req = Inr resp"
      unfolding compose_dispatch
    proof (rule prefix_resolves [where n = ?n])
      show "\<forall>j<?n. (middlewares ?c ! j) req = Next Done" by (rule pt)
      show "fst (dispatch ?c req ?n s) = Inr resp" if "index s < int ?n" for s
        using at [OF that] coe eh by simp
    qed simp_all
  }
qed

theorem second_invocation_rejected_witness:
  "compose ([pass_through] @ calls_next_twice # []) ok_handler
      \<lparr>continueOnError = Some True, errorHandler = None\<rparr> get_request
    = Inl DoubleInvocation
   \<and> compose ([pass_through] @ calls_next_twice # []) ok_handler
      \<lparr>continueOnError = None, errorHandler = None\<rparr> get_request
    = Inr internal_server_error"
  using second_invocation_rejected [where pre = "[pass_through]"
      and m = calls_next_twice and k = "\<lambda>first. Next Done" and post = "[]"
      and h = ok_handler
      and options = "\<lparr>continueOnError = Some True, errorHandler = None\<rparr>"
      and req = get_request, THEN conjunct2, THEN conjunct2]
    second_invocation_rejected [where pre = "[pass_through]"
      and m = calls_next_twice and k = "\<lambda>first. Next Done" and post = "[]"
      and h = ok_handler
      and options = "\<lparr>continueOnError = None, errorHandler = None\<rparr>"
      and req = get_request, THEN conjunct2, THEN conjunct2]
  by (simp add: make_chain_def defaultErrorHandler_def pass_through_def calls_next_twice_def
      internal_server_error_def)

text \<open>
  C3 as stated fails under \<open>continueOnError = true\<close>: when the terminal handler raises,
  \<open>dispatch\<close> goes on to the stage after the handler, which does not exist, and the caller
  receives the error \<open>No handler found\<close>.
\<close>

theorem raw_error_counterexample:
  "compose [] raising_handler
      \<lparr>continueOnError = Some True, errorHandler = None\<rparr> get_request
    = Inl (ErrorObj ''No handler found'')"
  by (simp add: compose_def composed_run_def make_chain_def dispatch.simps Let_def
      raising_handler_def)

text \<open>
  C3, amended: under \<open>continueOnError = false\<close>, with an error handler that returns a
  response for every error (the default one does), the composed handler returns a response
  for every chain and request, whatever the middlewares and the terminal handler raise.
  Under \<open>continueOnError = true\<close> the caller receives a response or one of the two errors
  of \<open>dispatch\<close> itself, \<open>next() called multiple times\<close> or \<open>No handler found\<close>; when
  the terminal handler raises and every middleware is pass-through, it receives
  \<open>No handler found\<close> for the empty chain and \<open>next() called multiple times\<close>
  otherwise.
\<close>

theorem response_or_dispatch_error:
  "(continueOnError options \<noteq> Some True
      \<and> (\<forall>e. \<exists>r. error_handler (make_chain mws h options) e req = Inr r)
     \<longrightarrow> (\<exists>resp. compose mws h options req = Inr resp))
   \<and> (continueOnError options = Some True
     \<longrightarrow> (\<forall>e. compose mws h options req = Inl e \<longrightarrow> e = DoubleInvocation \<or> e = NoHandlerFound)
       \<and> ((\<forall>m \<in> set mws. \<forall>r. m r = Next Done) \<and> (\<exists>e. h req = Inl e)
          \<longrightarrow> compose mws h options req
              = Inl (if mws = [] then NoHandlerFound else DoubleInvocation)))"
proof (intro conjI impI allI)
  let ?c = "make_chain mws h options"
  assume "continueOnError options \<noteq> Some True
      \<and> (\<forall>e. \<exists>r. error_handler ?c e req = Inr r)"
  then show "\<exists>resp. compose mws h options req = Inr resp"
    unfolding compose_dispatch by (intro no_continue_resolves) simp_all
next
  fix e
  assume "continueOnError options = Some True" and "compose mws h options req = Inl e"
  then show "e = DoubleInvocation \<or> e = NoHandlerFound"
    unfolding compose_dispatch by (intro continue_rejections [where c = "make_chain mws h options"]) simp_all
next
  let ?c = "make_chain mws h options"
  assume coe: "continueOnError options = Some True"
    and hyp: "(\<forall>m \<in> set mws. \<forall>r. m r = Next Done) \<and> (\<exists>e. h req = Inl e)"
  then obtain e where e: "h req = Inl e" by blast
  have at: "fst (dispatch ?c req (length mws) s) = Inl NoHandlerFound"
    if "index s < int (length mws)" for s
    using handler_raises_continue [of ?c req e s] coe e that by simp
  have "\<exists>e. fst (dispatch ?c req 0 \<lparr>index = - 1, ran = []\<rparr>) = Inl e
          \<and> (0 < length mws \<longrightarrow> e = DoubleInvocation)"
    using coe hyp at by (intro prefix_rejects [where n = "length mws"]) simp_all
  moreover have "fst (dispatch ?c req 0 \<lparr>index = - 1, ran = []\<rparr>) = Inl NoHandlerFound"
    if "mws = []"
    using at [of "\<lparr>index = - 1, ran = []\<rparr>"] that by simp
  ultimately show "compose mws h options req = Inl (if mws = [] then NoHandlerFound else DoubleInvocation)"
    unfolding compose_dispatch by (cases "mws = []") auto
qed

theorem response_or_dispatch_error_witness:
  "(\<exists>resp. compose [raises_after_next] raising_handler
      \<lparr>continueOnError = None, errorHandler = None\<rparr> get_request = Inr resp)
   \<and> compose [pass_through] raising_handler
      \<lparr>continueOnError = Some True, errorHandler = None\<rparr> get_request
    = Inl DoubleInvocation"
  using response_or_dispatch_error [where mws = "[raises_after_next]"
      and h = raising_handler
      and options = "\<lparr>continueOnError = None, errorHandler = None\<rparr>"
      and req = get_request]
    response_or_dispatch_error [where mws = "[pass_through]"
      and h = raising_handler
      and options = "\<lparr>continueOnError = Some True, errorHandler = None\<rparr>"
      and req = get_request]
  by (simp add: make_chain_def defaultErrorHandler_def pass_through_def raising_handler_def)

section \<open>Properties of headers and of the rate limiter\<close>

lemma same_name_refl [simp]: "same_name a a"
  by (simp add: same_name_def)

lemma headers_get_set:
  "headers_get (headers_set hs n v) m = (if same_name m n then Some v else headers_get hs m)"
proof (cases "same_name m n")
  case True
  then have "filter (\<lambda>kv. same_name (fst kv) m) (filter (\<lambda>kv. \<not> same_name (fst kv) n) hs) = []"
    by (auto simp: same_name_def filter_empty_conv)
  moreover from True have "same_name n m" by (simp add: same_name_def)
  ultimately show ?thesis using True by (simp add: headers_get_def headers_set_def)
next
  case False
  then have "filter (\<lambda>kv. same_name (fst kv) m) (filter (\<lambda>kv. \<not> same_name (fst kv) n) hs)
      = filter (\<lambda>kv. same_name (fst kv) m) hs"
    by (auto simp: same_name_def intro: filter_cong)
  moreover from False have "\<not> same_name n m" by (auto simp: same_name_def)
  ultimately show ?thesis using False by (simp add: headers_get_def headers_set_def)
qed

lemma then_set_simps [simp]:
  "then_set (Inl e) n v = Inl e"
  "then_set (Inr r) n v = set_header r n v"
  by (simp_all add: then_set_def)

lemma set_header_immutable [simp]:
  "immutable_headers r \<Longrightarrow> set_header r n v = Inl immutable_headers_error"
  by (simp add: set_header_def)

lemma set_header_mutable:
  "\<not> immutable_headers r \<Longrightarrow> set_header r n v = Inr (r\<lparr>headers := headers_set (headers r) n v\<rparr>)"
  by (simp add: set_header_def)

lemma header_names [simp]:
  "\<not> same_name ''X-RateLimit-Remaining'' ''X-RateLimit-Reset''"
  "\<not> same_name ''X-RateLimit-Remaining'' ''X-RateLimit-Limit''"
  "\<not> same_name ''X-RateLimit-Limit'' ''X-RateLimit-Reset''"
  "\<not> same_name ''X-RateLimit-Limit'' ''X-RateLimit-Remaining''"
  "\<not> same_name ''X-RateLimit-Reset'' ''X-RateLimit-Remaining''"
  "\<not> same_name ''X-RateLimit-Reset'' ''X-RateLimit-Limit''"
  by (simp_all add: same_name_def lower_char_def)

lemma rate_limit_headers_immutable:
  "immutable_headers resp \<Longrightarrow> rate_limit_headers opts cur resp = Inl immutable_headers_error"
  by (simp add: rate_limit_headers_def)

lemma rate_limit_headers_mutable:
  assumes "\<not> immutable_headers resp"
  shows "\<exists>r. rate_limit_headers opts cur resp = Inr r
     \<and> status r = status resp \<and> body r = body resp
     \<and> headers_get (headers r) ''X-RateLimit-Limit'' = Some (toString (maxRequests opts))
     \<and> headers_get (headers r) ''X-RateLimit-Remaining''
         = Some (toString (max 0 (maxRequests opts - count cur)))
     \<and> headers_get (headers r) ''X-RateLimit-Reset'' = Some (toString (resetTime cur))"
  using assms by (simp add: rate_limit_headers_def set_header_mutable headers_get_set)

lemma run_rateLimit:
  "run (rateLimit opts now req cls) (\<lambda>n. (Inr resp, Suc n)) 0 =
     (case rateLimit_before_next opts now req cls of
        (Some rejected, cls1) \<Rightarrow> ((Inr rejected, cls1), 0)
      | (None, cls1) \<Rightarrow> (rateLimit_after_next opts req resp cls1, 1))"
  by (simp add: rateLimit_def split: prod.split option.split)

lemma before_next_new_window:
  assumes "cls (key_of opts req) = None
           \<or> (\<exists>cl. cls (key_of opts req) = Some cl \<and> resetTime cl < now)"
  shows "rateLimit_before_next opts now req cls =
           (None, cls(key_of opts req \<mapsto> \<lparr>count = 1, resetTime = now + windowMs opts\<rparr>))"
  using assms by (auto simp: rateLimit_before_next_def Let_def)

lemma before_next_in_window:
  assumes "cls (key_of opts req) = Some cl" and "now \<le> resetTime cl"
  shows "rateLimit_before_next opts now req cls =
           (if maxRequests opts < count cl + 1
            then Some (too_many_requests opts now (cl\<lparr>count := count cl + 1\<rparr>))
            else None,
            cls(key_of opts req \<mapsto> cl\<lparr>count := count cl + 1\<rparr>))"
  using assms by (simp add: rateLimit_before_next_def Let_def)

lemma after_next_counted:
  assumes "\<not> (skip_successful opts \<and> status resp < 400)" and "cls (key_of opts req) = Some cur"
  shows "rateLimit_after_next opts req resp cls = (rate_limit_headers opts cur resp, cls)"
  using assms by (auto simp: rateLimit_after_next_def Let_def)

lemma after_next_skipped:
  assumes "skip_successful opts" and "status resp < 400" and "cls (key_of opts req) = Some cur"
  shows "rateLimit_after_next opts req resp cls =
     (rate_limit_headers opts (cur\<lparr>count := max 0 (count cur - 1)\<rparr>) resp,
      cls(key_of opts req \<mapsto> cur\<lparr>count := max 0 (count cur - 1)\<rparr>))"
  using assms by (simp add: rateLimit_after_next_def Let_def)

lemma client_count_update: "cl\<lparr>count := n\<rparr> = \<lparr>count = n, resetTime = resetTime cl\<rparr>"
  by (cases cl) simp

text \<open>One allowed request inside the window, every response counted.\<close>

lemma counted_request_in_window:
  assumes skip: "\<not> skip_successful opts"
    and entry: "cls (key_of opts req) = Some \<lparr>count = n, resetTime = t\<rparr>"
    and window: "now \<le> t" and room: "n + 1 \<le> maxRequests opts"
  shows "run (rateLimit opts now req cls) (\<lambda>n. (Inr resp, Suc n)) 0
           = ((rate_limit_headers opts \<lparr>count = n + 1, resetTime = t\<rparr> resp,
               cls(key_of opts req \<mapsto> \<lparr>count = n + 1, resetTime = t\<rparr>)), 1)"
  using assms
  by (simp add: run_rateLimit before_next_in_window after_next_counted)

lemma counted_request_new_window:
  assumes skip: "\<not> skip_successful opts"
    and entry: "cls (key_of opts req) = None
           \<or> (\<exists>cl. cls (key_of opts req) = Some cl \<and> resetTime cl < now)"
  shows "run (rateLimit opts now req cls) (\<lambda>n. (Inr resp, Suc n)) 0
           = ((rate_limit_headers opts \<lparr>count = 1, resetTime = now + windowMs opts\<rparr> resp,
               cls(key_of opts req \<mapsto> \<lparr>count = 1, resetTime = now + windowMs opts\<rparr>)), 1)"
  using skip before_next_new_window [of cls opts req now, OF entry]
  by (simp add: run_rateLimit after_next_counted)

lemma rejected_request_in_window:
  assumes entry: "cls (key_of opts req) = Some \<lparr>count = n, resetTime = t\<rparr>"
    and window: "now \<le> t" and full: "maxRequests opts < n + 1"
  shows "run (rateLimit opts now req cls) (\<lambda>n. (Inr resp, Suc n)) 0
           = ((Inr (too_many_requests opts now \<lparr>count = n + 1, resetTime = t\<rparr>),
               cls(key_of opts req \<mapsto> \<lparr>count = n + 1, resetTime = t\<rparr>)), 0)"
  using assms by (simp add: run_rateLimit before_next_in_window)

lemma too_many_requests_headers:
  "headers_get (headers (too_many_requests opts now cl)) ''Content-Type'' = Some ''application/json''"
  "headers_get (headers (too_many_requests opts now cl)) ''Retry-After''
     = Some (toString (retry_after cl now))"
  "headers_get (headers (too_many_requests opts now cl)) ''X-RateLimit-Limit''
     = Some (toString (maxRequests opts))"
  "headers_get (headers (too_many_requests opts now cl)) ''X-RateLimit-Remaining''
     = Some (toString (max 0 (maxRequests opts - count cl)))"
  "headers_get (headers (too_many_requests opts now cl)) ''X-RateLimit-Reset''
     = Some (toString (resetTime cl))"
  by (simp_all add: too_many_requests_def headers_get_def same_name_def lower_char_def)

lemma retry_after_positive: "0 < retry_after cl now \<longleftrightarrow> now < resetTime cl"
  by (simp add: retry_after_def)

lemma retry_after_nonneg: "now \<le> resetTime cl \<Longrightarrow> 0 \<le> retry_after cl now"
proof -
  assume "now \<le> resetTime cl"
  then have "0 \<le> real_of_int (resetTime cl - now) / 1000" by simp
  then have "0 \<le> \<lceil>real_of_int (resetTime cl - now) / 1000\<rceil>" by linarith
  then show ?thesis by (simp add: retry_after_def)
qed

text \<open>
  C4 as stated fails in two places. The code keeps the window open up to and including
  \<open>now = resetTime\<close>; a fourth call at that instant is answered 429 with
  \<open>Retry-After: 0\<close>, not a positive value. And a continuation whose response has
  immutable headers (a redirect) makes \<open>response.headers.set\<close> throw: the call is
  allowed and counted, but no response with \<open>X-RateLimit-Remaining\<close> is returned.
\<close>

theorem retry_after_zero_counterexample:
  "drop 3 (serve limit_three Map.empty
      [(1000, get_request, ok_response), (2000, get_request, ok_response),
       (3000, get_request, ok_response), (61000, get_request, ok_response)])
     = [(Inr (too_many_requests limit_three 61000 \<lparr>count = 4, resetTime = 61000\<rparr>), 0,
         [''localhost'' \<mapsto> \<lparr>count = 4, resetTime = 61000\<rparr>])]
   \<and> headers_get (headers (too_many_requests limit_three 61000 \<lparr>count = 4, resetTime = 61000\<rparr>))
        ''Retry-After'' = Some ''0''
   \<and> serve limit_three Map.empty [(1000, get_request, redirect_response)]
     = [(Inl immutable_headers_error, 1, [''localhost'' \<mapsto> \<lparr>count = 1, resetTime = 61000\<rparr>])]"
  by (simp add: run_rateLimit rateLimit_before_next_def rateLimit_after_next_def Let_def
      limit_three_def key_of_def skip_successful_def get_request_def ok_response_def
      redirect_response_def rate_limit_headers_def set_header_def too_many_requests_headers
      retry_after_def toString_def digits.simps)


text \<open>
  C4, amended: a rate limiter with \<open>windowMs = 60000\<close> and \<open>maxRequests = 3\<close> that
  counts every response, and four requests with the same key handled one after the other,
  the first opening the window (no entry, or an expired one) and the others not after its
  \<open>resetAt\<close>, the continuation's responses of calls 1 to 3 having headers that can be
  modified. Calls 1 to 3 invoke the continuation once, return its response with the
  status and body it has, and carry \<open>X-RateLimit-Remaining\<close> 2, 1 and 0; the entry
  counts 1, 2, 3 and then 4. Call 4 does not invoke the continuation and returns status
  429 with \<open>Content-Type: application/json\<close>, \<open>Retry-After\<close>,
  \<open>X-RateLimit-Limit\<close>, \<open>X-RateLimit-Remaining\<close>, \<open>X-RateLimit-Reset\<close> and the
  JSON body, where \<open>Retry-After\<close> and \<open>retryAfter\<close> are
  \<open>ceil((resetAt - now) / 1000)\<close>: positive when \<open>now < resetAt\<close>, and 0 at
  \<open>now = resetAt\<close>.
\<close>

theorem rate_limit_window_of_three:
  assumes opts: "windowMs opts = 60000" "maxRequests opts = 3" "\<not> skip_successful opts"
    and keys: "key_of opts req1 = key" "key_of opts req2 = key" "key_of opts req3 = key"
      "key_of opts req4 = key"
    and fresh: "cls key = None \<or> (\<exists>cl. cls key = Some cl \<and> resetTime cl < now1)"
    and window: "now2 \<le> now1 + 60000" "now3 \<le> now1 + 60000" "now4 \<le> now1 + 60000"
    and mutable: "\<not> immutable_headers resp1" "\<not> immutable_headers resp2"
      "\<not> immutable_headers resp3"
  shows \<open>\<exists>r1 r2 r3 r4.
      serve opts cls [(now1, req1, resp1), (now2, req2, resp2), (now3, req3, resp3),
                      (now4, req4, resp4)]
        = [(Inr r1, 1, cls(key \<mapsto> \<lparr>count = 1, resetTime = now1 + 60000\<rparr>)),
           (Inr r2, 1, cls(key \<mapsto> \<lparr>count = 2, resetTime = now1 + 60000\<rparr>)),
           (Inr r3, 1, cls(key \<mapsto> \<lparr>count = 3, resetTime = now1 + 60000\<rparr>)),
           (Inr r4, 0, cls(key \<mapsto> \<lparr>count = 4, resetTime = now1 + 60000\<rparr>))]
      \<and> status r1 = status resp1 \<and> body r1 = body resp1
      \<and> status r2 = status resp2 \<and> body r2 = body resp2
      \<and> status r3 = status resp3 \<and> body r3 = body resp3
      \<and> headers_get (headers r1) ''X-RateLimit-Remaining'' = Some ''2''
      \<and> headers_get (headers r2) ''X-RateLimit-Remaining'' = Some ''1''
      \<and> headers_get (headers r3) ''X-RateLimit-Remaining'' = Some ''0''
      \<and> status r4 = 429
      \<and> headers_get (headers r4) ''Content-Type'' = Some ''application/json''
      \<and> headers_get (headers r4) ''Retry-After''
          = Some (toString \<lceil>real_of_int (now1 + 60000 - now4) / 1000\<rceil>)
      \<and> 0 \<le> \<lceil>real_of_int (now1 + 60000 - now4) / 1000\<rceil>
      \<and> (0 < \<lceil>real_of_int (now1 + 60000 - now4) / 1000\<rceil> \<longleftrightarrow> now4 < now1 + 60000)
      \<and> headers_get (headers r4) ''X-RateLimit-Limit'' = Some ''3''
      \<and> headers_get (headers r4) ''X-RateLimit-Remaining'' = Some ''0''
      \<and> headers_get (headers r4) ''X-RateLimit-Reset'' = Some (toString (now1 + 60000))
      \<and> body r4 = Some (''{"error":"Too Many Requests","retryAfter":''
                         @ toString \<lceil>real_of_int (now1 + 60000 - now4) / 1000\<rceil> @ ''}'')\<close>
proof -
  let ?t = "now1 + 60000"
  let ?cls = "\<lambda>n. cls(key \<mapsto> \<lparr>count = n, resetTime = ?t\<rparr>)"
  let ?r4 = "too_many_requests opts now4 \<lparr>count = 4, resetTime = ?t\<rparr>"
  have digits: "toString 2 = ''2''" "toString 1 = ''1''" "toString 0 = ''0''" "toString 3 = ''3''"
    by (simp_all add: toString_def digits.simps)
  from fresh keys(1) have fresh1: "cls (key_of opts req1) = None
      \<or> (\<exists>cl. cls (key_of opts req1) = Some cl \<and> resetTime cl < now1)" by simp
  from rate_limit_headers_mutable [OF mutable(1), of opts "\<lparr>count = 1, resetTime = ?t\<rparr>"] opts digits
  obtain r1 where h1: "rate_limit_headers opts \<lparr>count = 1, resetTime = ?t\<rparr> resp1 = Inr r1"
      "status r1 = status resp1" "body r1 = body resp1"
      "headers_get (headers r1) ''X-RateLimit-Remaining'' = Some ''2''"
    by auto
  from rate_limit_headers_mutable [OF mutable(2), of opts "\<lparr>count = 2, resetTime = ?t\<rparr>"] opts digits
  obtain r2 where h2: "rate_limit_headers opts \<lparr>count = 2, resetTime = ?t\<rparr> resp2 = Inr r2"
      "status r2 = status resp2" "body r2 = body resp2"
      "headers_get (headers r2) ''X-RateLimit-Remaining'' = Some ''1''"
    by auto
  from rate_limit_headers_mutable [OF mutable(3), of opts "\<lparr>count = 3, resetTime = ?t\<rparr>"] opts digits
  obtain r3 where h3: "rate_limit_headers opts \<lparr>count = 3, resetTime = ?t\<rparr> resp3 = Inr r3"
      "status r3 = status resp3" "body r3 = body resp3"
      "headers_get (headers r3) ''X-RateLimit-Remaining'' = Some ''0''"
    by auto
  from counted_request_new_window [where opts = opts and cls = cls and req = req1
      and now = now1 and resp = resp1, OF opts(3) fresh1] opts keys h1(1)
  have r1: "run (rateLimit opts now1 req1 cls) (\<lambda>n. (Inr resp1, Suc n)) 0
        = ((Inr r1, ?cls 1), 1)"
    by simp
  from counted_request_in_window [OF opts(3), of "?cls 1" req2 1 ?t now2 resp2] opts keys window h2(1)
  have r2: "run (rateLimit opts now2 req2 (?cls 1)) (\<lambda>n. (Inr resp2, Suc n)) 0
        = ((Inr r2, ?cls 2), 1)"
    by simp
  from counted_request_in_window [OF opts(3), of "?cls 2" req3 2 ?t now3 resp3] opts keys window h3(1)
  have r3: "run (rateLimit opts now3 req3 (?cls 2)) (\<lambda>n. (Inr resp3, Suc n)) 0
        = ((Inr r3, ?cls 3), 1)"
    by simp
  from rejected_request_in_window [of "?cls 3" opts req4 3 ?t now4 resp4] opts keys window
  have r4: "run (rateLimit opts now4 req4 (?cls 3)) (\<lambda>n. (Inr resp4, Suc n)) 0
        = ((Inr ?r4, ?cls 4), 0)"
    by simp
  have ra: "retry_after \<lparr>count = 4, resetTime = ?t\<rparr> now4 = \<lceil>real_of_int (now1 + 60000 - now4) / 1000\<rceil>"
    by (simp add: retry_after_def)
  have nonneg: "0 \<le> retry_after \<lparr>count = 4, resetTime = ?t\<rparr> now4"
    using window(3) by (intro retry_after_nonneg) simp
  have pos: "0 < retry_after \<lparr>count = 4, resetTime = ?t\<rparr> now4 \<longleftrightarrow> now4 < now1 + 60000"
    by (simp add: retry_after_positive)
  have "serve opts cls [(now1, req1, resp1), (now2, req2, resp2), (now3, req3, resp3),
                      (now4, req4, resp4)]
        = [(Inr r1, 1, ?cls 1), (Inr r2, 1, ?cls 2), (Inr r3, 1, ?cls 3), (Inr ?r4, 0, ?cls 4)]"
    using r1 r2 r3 r4 by simp
  moreover have "status ?r4 = 429"
    by (simp add: too_many_requests_def)
  moreover have \<open>body ?r4 = Some (''{"error":"Too Many Requests","retryAfter":''
                         @ toString \<lceil>real_of_int (now1 + 60000 - now4) / 1000\<rceil> @ ''}'')\<close>
    using ra by (simp add: too_many_requests_def)
  moreover have "headers_get (headers ?r4) ''X-RateLimit-Limit'' = Some ''3''"
      "headers_get (headers ?r4) ''X-RateLimit-Remaining'' = Some ''0''"
    using opts digits by (simp_all add: too_many_requests_headers)
  moreover have "headers_get (headers ?r4) ''Retry-After''
          = Some (toString \<lceil>real_of_int (now1 + 60000 - now4) / 1000\<rceil>)"
      "headers_get (headers ?r4) ''X-RateLimit-Reset'' = Some (toString (now1 + 60000))"
      "headers_get (headers ?r4) ''Content-Type'' = Some ''application/json''"
    using ra by (simp_all add: too_many_requests_headers)
  ultimately show ?thesis
    using h1(2-4) h2(2-4) h3(2-4) ra nonneg pos
    by (intro exI [of _ r1] exI [of _ r2] exI [of _ r3] exI [of _ ?r4]) simp
qed

theorem rate_limit_window_of_three_witness:
  \<open>\<exists>r1 r2 r3 r4.
      serve limit_three Map.empty
        [(1000, get_request, ok_response), (2000, get_request, ok_response),
         (3000, get_request, ok_response), (61000, get_request, redirect_response)]
        = [(Inr r1, 1, [''localhost'' \<mapsto> \<lparr>count = 1, resetTime = 61000\<rparr>]),
           (Inr r2, 1, [''localhost'' \<mapsto> \<lparr>count = 2, resetTime = 61000\<rparr>]),
           (Inr r3, 1, [''localhost'' \<mapsto> \<lparr>count = 3, resetTime = 61000\<rparr>]),
           (Inr r4, 0, [''localhost'' \<mapsto> \<lparr>count = 4, resetTime = 61000\<rparr>])]
      \<and> headers_get (headers r1) ''X-RateLimit-Remaining'' = Some ''2''
      \<and> headers_get (headers r2) ''X-RateLimit-Remaining'' = Some ''1''
      \<and> headers_get (headers r3) ''X-RateLimit-Remaining'' = Some ''0''
      \<and> status r4 = 429
      \<and> headers_get (headers r4) ''Retry-After'' = Some ''0''
      \<and> headers_get (headers r4) ''X-RateLimit-Reset'' = Some ''61000''
      \<and> body r4 = Some ''{"error":"Too Many Requests","retryAfter":0}''\<close>
proof -
  have "toString 0 = ''0''" "toString 61000 = ''61000''"
    by (simp_all add: toString_def digits.simps)
  with rate_limit_window_of_three [of limit_three get_request "''localhost''" get_request
      get_request get_request Map.empty 1000 2000 3000 61000 ok_response ok_response
      ok_response redirect_response]
  show ?thesis
    by (simp add: limit_three_def key_of_def skip_successful_def get_request_def
        ok_response_def) blast
qed


text \<open>One successful request when successful requests are not counted.\<close>

lemma uncounted_request:
  assumes skip: "skip_successful opts" and ok: "status resp < 400"
    and entry: "cls (key_of opts req) = None
        \<or> (\<exists>cl. cls (key_of opts req) = Some cl
              \<and> (resetTime cl < now \<or> count cl = 0 \<and> 1 \<le> maxRequests opts))"
  shows "\<exists>t. run (rateLimit opts now req cls) (\<lambda>n. (Inr resp, Suc n)) 0
           = ((rate_limit_headers opts \<lparr>count = 0, resetTime = t\<rparr> resp,
               cls(key_of opts req \<mapsto> \<lparr>count = 0, resetTime = t\<rparr>)), 1)"
proof (cases "cls (key_of opts req) = None
        \<or> (\<exists>cl. cls (key_of opts req) = Some cl \<and> resetTime cl < now)")
  case True
  from before_next_new_window [of cls opts req now, OF True] skip ok show ?thesis
    by (intro exI [of _ "now + windowMs opts"])
       (simp add: run_rateLimit after_next_skipped)
next
  case False
  with entry obtain cl where cl: "cls (key_of opts req) = Some cl" "now \<le> resetTime cl"
      "count cl = 0" "1 \<le> maxRequests opts"
    by force
  from before_next_in_window [where cls = cls and opts = opts and req = req and cl = cl
      and now = now, OF cl(1,2)] cl(3,4) skip ok show ?thesis
    by (intro exI [of _ "resetTime cl"])
       (simp add: run_rateLimit after_next_skipped client_count_update)
qed

lemma rate_limit_headers_cases:
  "(\<exists>r. rate_limit_headers opts cur resp = Inr r \<and> status r = status resp
        \<and> \<not> immutable_headers resp)
   \<or> (rate_limit_headers opts cur resp = Inl immutable_headers_error \<and> immutable_headers resp)"
  using rate_limit_headers_mutable [of resp opts cur] rate_limit_headers_immutable [of resp opts cur]
  by (cases "immutable_headers resp") auto

lemma serve_uncounted:
  assumes skip: "skip_successful opts" and limit: "1 \<le> maxRequests opts"
  shows "list_all (\<lambda>(now, req, resp). key_of opts req = key \<and> status resp < 400) reqs
    \<Longrightarrow> cls key = None \<or> (\<exists>cl. cls key = Some cl \<and> count cl = 0)
    \<Longrightarrow> list_all2 (\<lambda>(now, req, resp) (out, calls, cls').
            calls = 1
            \<and> (\<exists>t. cls' = cls(key \<mapsto> \<lparr>count = 0, resetTime = t\<rparr>)
                  \<and> out = rate_limit_headers opts \<lparr>count = 0, resetTime = t\<rparr> resp))
          reqs (serve opts cls reqs)"
proof (induction reqs arbitrary: cls)
  case Nil
  then show ?case by simp
next
  case (Cons x reqs)
  let ?P = "\<lambda>cls. \<lambda>(now, req, resp) (out, calls, cls').
            calls = (1::nat)
            \<and> (\<exists>t. cls' = cls(key \<mapsto> \<lparr>count = 0, resetTime = t\<rparr>)
                  \<and> out = rate_limit_headers opts \<lparr>count = 0, resetTime = t\<rparr> resp)"
  obtain now req resp where x: "x = (now, req, resp)" by (cases x)
  with Cons.prems have key: "key_of opts req = key" and ok: "status resp < 400"
    and rest: "list_all (\<lambda>(now, req, resp). key_of opts req = key \<and> status resp < 400) reqs"
    by simp_all
  from Cons.prems(2) key limit have "cls (key_of opts req) = None
        \<or> (\<exists>cl. cls (key_of opts req) = Some cl
              \<and> (resetTime cl < now \<or> count cl = 0 \<and> 1 \<le> maxRequests opts))"
    by auto
  from uncounted_request [where opts = opts and cls = cls and req = req and now = now
      and resp = resp, OF skip ok this] key obtain t
    where step: "run (rateLimit opts now req cls) (\<lambda>n. (Inr resp, Suc n)) 0
           = ((rate_limit_headers opts \<lparr>count = 0, resetTime = t\<rparr> resp,
               cls(key \<mapsto> \<lparr>count = 0, resetTime = t\<rparr>)), 1)"
    by auto
  let ?cls1 = "cls(key \<mapsto> \<lparr>count = 0, resetTime = t\<rparr>)"
  have serve_eq: "serve opts cls (x # reqs)
      = (rate_limit_headers opts \<lparr>count = 0, resetTime = t\<rparr> resp, 1, ?cls1)
        # serve opts ?cls1 reqs"
    using x step by simp
  have "list_all2 (?P ?cls1) reqs (serve opts ?cls1 reqs)"
    using rest by (rule Cons.IH) simp
  then have tail: "list_all2 (?P cls) reqs (serve opts ?cls1 reqs)"
    by simp
  have head: "?P cls x (rate_limit_headers opts \<lparr>count = 0, resetTime = t\<rparr> resp, 1, ?cls1)"
    unfolding x by (simp only: prod.case) (intro conjI exI [of _ t] refl)
  show ?case
    unfolding serve_eq using head tail by (rule list_all2_Cons [THEN iffD2, OF conjI])
qed

lemma serve_first_uncounted:
  assumes skip: "skip_successful opts"
    and req: "key_of opts req = key" "status resp < 400" and fresh: "cls key = None"
  shows "list_all2 (\<lambda>(now, req, resp) (out, calls, cls').
            calls = 1
            \<and> (\<exists>t. cls' = cls(key \<mapsto> \<lparr>count = 0, resetTime = t\<rparr>)
                  \<and> out = rate_limit_headers opts \<lparr>count = 0, resetTime = t\<rparr> resp))
          [(now, req, resp)] (serve opts cls [(now, req, resp)])"
proof -
  let ?P = "\<lambda>(now, req, resp) (out, calls, cls').
            calls = (1::nat)
            \<and> (\<exists>t. cls' = cls(key \<mapsto> \<lparr>count = 0, resetTime = t\<rparr>)
                  \<and> out = rate_limit_headers opts \<lparr>count = 0, resetTime = t\<rparr> resp)"
  from fresh req(1) have "cls (key_of opts req) = None
        \<or> (\<exists>cl. cls (key_of opts req) = Some cl
              \<and> (resetTime cl < now \<or> count cl = 0 \<and> 1 \<le> maxRequests opts))"
    by simp
  from uncounted_request [where opts = opts and cls = cls and req = req and now = now
      and resp = resp, OF skip req(2) this] req(1) obtain t
    where "run (rateLimit opts now req cls) (\<lambda>n. (Inr resp, Suc n)) 0
           = ((rate_limit_headers opts \<lparr>count = 0, resetTime = t\<rparr> resp,
               cls(key \<mapsto> \<lparr>count = 0, resetTime = t\<rparr>)), 1)"
    by auto
  then have serve_eq: "serve opts cls [(now, req, resp)]
      = [(rate_limit_headers opts \<lparr>count = 0, resetTime = t\<rparr> resp, 1,
          cls(key \<mapsto> \<lparr>count = 0, resetTime = t\<rparr>))]"
    by simp
  have head: "?P (now, req, resp) (rate_limit_headers opts \<lparr>count = 0, resetTime = t\<rparr> resp, 1,
          cls(key \<mapsto> \<lparr>count = 0, resetTime = t\<rparr>))"
    by (simp only: prod.case) (intro conjI exI [of _ t] refl)
  have "list_all2 ?P [] []" by simp
  with head show ?thesis
    unfolding serve_eq by (rule list_all2_Cons [THEN iffD2, OF conjI])
qed

lemma rateLimit_in_window_steps:
  assumes "cls0 (key_of opts req) = Some c" and "now \<le> resetTime c"
    and "count c + 1 \<le> maxRequests opts" and "skip_successful opts" and "status resp < 400"
  shows "\<exists>k. rateLimit opts now req cls0 = Next k
           \<and> k (Inl e) = Done (Inl e, cls0(key_of opts req \<mapsto> c\<lparr>count := count c + 1\<rparr>))
           \<and> k (Inr resp)
               = Done (rate_limit_headers opts (c\<lparr>count := max 0 (count c + 1 - 1)\<rparr>) resp,
                       cls0(key_of opts req \<mapsto> c\<lparr>count := max 0 (count c + 1 - 1)\<rparr>))"
  using assms
  by (simp add: rateLimit_def before_next_in_window after_next_skipped)

lemma rateLimit_new_window_steps:
  assumes "cls0 (key_of opts req) = None
        \<or> (\<exists>cl. cls0 (key_of opts req) = Some cl \<and> resetTime cl < now)"
    and "skip_successful opts" and "status resp < 400"
  shows "\<exists>k. rateLimit opts now req cls0 = Next k
           \<and> k (Inl e)
               = Done (Inl e, cls0(key_of opts req \<mapsto> \<lparr>count = 1, resetTime = now + windowMs opts\<rparr>))
           \<and> k (Inr resp)
               = Done (rate_limit_headers opts \<lparr>count = 0, resetTime = now + windowMs opts\<rparr> resp,
                       cls0(key_of opts req \<mapsto> \<lparr>count = 0, resetTime = now + windowMs opts\<rparr>))"
  using assms(2,3) before_next_new_window [of cls0 opts req now, OF assms(1)]
  by (simp add: rateLimit_def after_next_skipped)


text \<open>
  C8: with \<open>skipSuccessfulRequests = true\<close>, a request whose continuation returns a
  response with status below 400 is counted on entry (the entry is created with count 1,
  or its count is incremented) and the count is decremented again, not below 0, after the
  continuation has returned. So of \<open>maxRequests + 1\<close> requests with the same key, handled
  one after the other by a limiter that has no entry for the key, all with successful
  responses, every one invokes its continuation once and leaves the entry at count 0, and
  none is answered 429: the outcome is the continuation's response with the rate limit
  headers, or, when that response has immutable headers, the \<open>TypeError\<close> of setting
  them, raised after the count has been restored.
\<close>

theorem successful_requests_not_counted:
  assumes skip: "skip_successful opts"
    and reqs: "list_all (\<lambda>(now, req, resp). key_of opts req = key \<and> status resp < 400) reqs"
    and fresh: "cls key = None"
    and n: "int (length reqs) = maxRequests opts + 1"
  shows "list_all2 (\<lambda>(now, req, resp) (out, calls, cls').
            calls = 1
            \<and> (\<exists>t. cls' = cls(key \<mapsto> \<lparr>count = 0, resetTime = t\<rparr>)
                  \<and> out = rate_limit_headers opts \<lparr>count = 0, resetTime = t\<rparr> resp))
           reqs (serve opts cls reqs)
         \<and> list_all2 (\<lambda>(now, req, resp) (out, calls, cls').
              case out of
                Inr r \<Rightarrow> status r = status resp \<and> status r < 400 \<and> \<not> immutable_headers resp
              | Inl e \<Rightarrow> e = immutable_headers_error \<and> immutable_headers resp)
           reqs (serve opts cls reqs)
         \<and> (\<forall>cls0 c now req resp e.
               cls0 (key_of opts req) = Some c \<and> now \<le> resetTime c
               \<and> count c + 1 \<le> maxRequests opts \<and> status resp < 400
              \<longrightarrow> (\<exists>k. rateLimit opts now req cls0 = Next k
                    \<and> k (Inl e)
                        = Done (Inl e, cls0(key_of opts req \<mapsto> c\<lparr>count := count c + 1\<rparr>))
                    \<and> k (Inr resp)
                        = Done (rate_limit_headers opts
                                  (c\<lparr>count := max 0 (count c + 1 - 1)\<rparr>) resp,
                                cls0(key_of opts req
                                  \<mapsto> c\<lparr>count := max 0 (count c + 1 - 1)\<rparr>))))
         \<and> (\<forall>cls0 now req resp e.
               (cls0 (key_of opts req) = None
                  \<or> (\<exists>cl. cls0 (key_of opts req) = Some cl \<and> resetTime cl < now))
               \<and> status resp < 400
              \<longrightarrow> (\<exists>k. rateLimit opts now req cls0 = Next k
                    \<and> k (Inl e)
                        = Done (Inl e, cls0(key_of opts req
                                  \<mapsto> \<lparr>count = 1, resetTime = now + windowMs opts\<rparr>))
                    \<and> k (Inr resp)
                        = Done (rate_limit_headers opts
                                  \<lparr>count = 0, resetTime = now + windowMs opts\<rparr> resp,
                                cls0(key_of opts req
                                  \<mapsto> \<lparr>count = 0, resetTime = now + windowMs opts\<rparr>))))
         \<and> (\<forall>req resp cls1 cur. cls1 (key_of opts req) = Some cur \<and> status resp < 400
              \<longrightarrow> snd (rateLimit_after_next opts req resp cls1) (key_of opts req)
                  = Some (cur\<lparr>count := max 0 (count cur - 1)\<rparr>))"
proof (intro conjI allI impI)
  let ?P = "\<lambda>(now, req, resp) (out, calls, cls').
            calls = (1::nat)
            \<and> (\<exists>t. cls' = cls(key \<mapsto> \<lparr>count = 0, resetTime = t\<rparr>)
                  \<and> out = rate_limit_headers opts \<lparr>count = 0, resetTime = t\<rparr> resp)"
  show "\<And>req resp cls1 cur. cls1 (key_of opts req) = Some cur \<and> status resp < 400
      \<Longrightarrow> snd (rateLimit_after_next opts req resp cls1) (key_of opts req)
                  = Some (cur\<lparr>count := max 0 (count cur - 1)\<rparr>)"
    using skip by (simp add: after_next_skipped)
  show "\<And>cls0 c now req resp e.
       cls0 (key_of opts req) = Some c \<and> now \<le> resetTime c
         \<and> count c + 1 \<le> maxRequests opts \<and> status resp < 400
       \<Longrightarrow> \<exists>k. rateLimit opts now req cls0 = Next k
              \<and> k (Inl e) = Done (Inl e, cls0(key_of opts req \<mapsto> c\<lparr>count := count c + 1\<rparr>))
              \<and> k (Inr resp)
                  = Done (rate_limit_headers opts (c\<lparr>count := max 0 (count c + 1 - 1)\<rparr>) resp,
                          cls0(key_of opts req \<mapsto> c\<lparr>count := max 0 (count c + 1 - 1)\<rparr>))"
    using skip by (intro rateLimit_in_window_steps) simp_all
  show "\<And>cls0 now req resp e.
       (cls0 (key_of opts req) = None
          \<or> (\<exists>cl. cls0 (key_of opts req) = Some cl \<and> resetTime cl < now))
         \<and> status resp < 400
       \<Longrightarrow> \<exists>k. rateLimit opts now req cls0 = Next k
              \<and> k (Inl e)
                  = Done (Inl e, cls0(key_of opts req
                            \<mapsto> \<lparr>count = 1, resetTime = now + windowMs opts\<rparr>))
              \<and> k (Inr resp)
                  = Done (rate_limit_headers opts
                            \<lparr>count = 0, resetTime = now + windowMs opts\<rparr> resp,
                          cls0(key_of opts req
                            \<mapsto> \<lparr>count = 0, resetTime = now + windowMs opts\<rparr>))"
    using skip by (intro rateLimit_new_window_steps) simp_all
  show restored: "list_all2 ?P reqs (serve opts cls reqs)"
  proof (cases "1 \<le> maxRequests opts")
    case True
    from fresh have "cls key = None \<or> (\<exists>cl. cls key = Some cl \<and> count cl = 0)" ..
    with skip True reqs show ?thesis by (rule serve_uncounted [where key = key])
  next
    case False
    with n have "length reqs \<le> 1" by simp
    then consider "reqs = []" | x where "reqs = [x]"
      by (cases reqs) auto
    then show ?thesis
    proof cases
      case 1
      then show ?thesis by simp
    next
      case 2
      obtain now req resp where x: "x = (now, req, resp)" by (cases x)
      with 2 reqs have "key_of opts req = key" "status resp < 400" by simp_all
      from serve_first_uncounted [where opts = opts and cls = cls and req = req
          and resp = resp and key = key and now = now, OF skip this fresh] 2 x show ?thesis
        by simp
    qed
  qed
  show "list_all2 (\<lambda>(now, req, resp) (out, calls, cls').
              case out of
                Inr r \<Rightarrow> status r = status resp \<and> status r < 400 \<and> \<not> immutable_headers resp
              | Inl e \<Rightarrow> e = immutable_headers_error \<and> immutable_headers resp)
           reqs (serve opts cls reqs)"
    using restored
  proof (rule list.rel_mono_strong)
    fix x y
    assume x: "x \<in> set reqs" and P: "?P x y"
    obtain now req resp where xe: "x = (now, req, resp)" by (cases x)
    obtain out calls cls' where ye: "y = (out, calls, cls')" by (cases y)
    from x xe reqs have ok: "status resp < 400" by (auto simp: list_all_iff)
    from P xe ye obtain t where "out = rate_limit_headers opts \<lparr>count = 0, resetTime = t\<rparr> resp"
      by auto
    with rate_limit_headers_cases [of opts "\<lparr>count = 0, resetTime = t\<rparr>" resp] ok xe ye
    show "(case x of (now, req, resp) \<Rightarrow> \<lambda>(out, calls, cls').
              case out of
                Inr r \<Rightarrow> status r = status resp \<and> status r < 400 \<and> \<not> immutable_headers resp
              | Inl e \<Rightarrow> e = immutable_headers_error \<and> immutable_headers resp) y"
      by auto
  qed
qed

theorem successful_requests_not_counted_witness:
  "list_all2 (\<lambda>(now, req, resp) (out, calls, cls').
            calls = 1
            \<and> (\<exists>t. cls' = [''localhost'' \<mapsto> \<lparr>count = 0, resetTime = t\<rparr>]
                  \<and> out = rate_limit_headers skip_three \<lparr>count = 0, resetTime = t\<rparr> resp))
     [(1000::int, get_request, ok_response), (1001, get_request, redirect_response),
      (1002, get_request, ok_response), (1003, get_request, ok_response)]
     (serve skip_three Map.empty
        [(1000::int, get_request, ok_response), (1001, get_request, redirect_response),
         (1002, get_request, ok_response), (1003, get_request, ok_response)])"
proof -
  let ?reqs = "[(1000::int, get_request, ok_response), (1001, get_request, redirect_response),
         (1002, get_request, ok_response), (1003, get_request, ok_response)]"
  have "skip_successful skip_three"
    by (simp add: skip_three_def skip_successful_def)
  moreover have "list_all (\<lambda>(now, req, resp). key_of skip_three req = ''localhost''
      \<and> status resp < 400) ?reqs"
    by (simp add: skip_three_def key_of_def get_request_def ok_response_def
        redirect_response_def)
  moreover have "Map.empty ''localhost'' = (None :: client option)" by simp
  moreover have "int (length ?reqs) = maxRequests skip_three + 1"
    by (simp add: skip_three_def)
  ultimately show ?thesis
    by (rule successful_requests_not_counted [THEN conjunct1])
qed

text \<open>
  C5 as stated fails at equality: the code resets the window only when
  \<open>now > resetTime\<close>. At \<open>now = resetTime\<close> an exhausted entry is incremented and the
  request is answered 429.
\<close>

theorem reset_at_equality_counterexample:
  "fst (rateLimit_before_next limit_three 1000 get_request exhausted_clients)
     = Some (too_many_requests limit_three 1000 \<lparr>count = 4, resetTime = 1000\<rparr>)
   \<and> snd (rateLimit_before_next limit_three 1000 get_request exhausted_clients) ''localhost''
     = Some \<lparr>count = 4, resetTime = 1000\<rparr>
   \<and> rateLimit limit_three 1000 get_request exhausted_clients
     = Done (Inr (too_many_requests limit_three 1000 \<lparr>count = 4, resetTime = 1000\<rparr>),
             exhausted_clients(''localhost'' \<mapsto> \<lparr>count = 4, resetTime = 1000\<rparr>))"
  by (simp add: rateLimit_def rateLimit_before_next_def limit_three_def exhausted_clients_def
      key_of_def get_request_def Let_def)

text \<open>
  C5, amended: when the entry of the computed key is absent, or present with
  \<open>resetAt < now\<close>, the entry is replaced by \<open>{count: 1, resetAt: now + windowMs}\<close> and
  the request is allowed (the continuation is invoked). At \<open>resetAt = now\<close> the window
  is still open: the entry keeps its \<open>resetAt\<close>, its count is incremented, and the request
  is allowed exactly when the new count does not exceed \<open>maxRequests\<close>.
\<close>

theorem window_reset:
  "(cls (key_of opts req) = None
      \<or> (\<exists>cl. cls (key_of opts req) = Some cl \<and> resetTime cl < now)
     \<longrightarrow> rateLimit_before_next opts now req cls
           = (None, cls(key_of opts req \<mapsto> \<lparr>count = 1, resetTime = now + windowMs opts\<rparr>))
       \<and> (\<exists>k. rateLimit opts now req cls = Next k))
   \<and> (cls (key_of opts req) = Some cl \<and> resetTime cl = now
     \<longrightarrow> snd (rateLimit_before_next opts now req cls)
           = cls(key_of opts req \<mapsto> \<lparr>count = count cl + 1, resetTime = now\<rparr>)
       \<and> (fst (rateLimit_before_next opts now req cls) = None
            \<longleftrightarrow> count cl + 1 \<le> maxRequests opts))"
proof (intro conjI impI)
  assume new: "cls (key_of opts req) = None
      \<or> (\<exists>cl. cls (key_of opts req) = Some cl \<and> resetTime cl < now)"
  then show "rateLimit_before_next opts now req cls
           = (None, cls(key_of opts req \<mapsto> \<lparr>count = 1, resetTime = now + windowMs opts\<rparr>))"
    by (rule before_next_new_window)
  then show "\<exists>k. rateLimit opts now req cls = Next k"
    by (simp add: rateLimit_def)
next
  assume eq: "cls (key_of opts req) = Some cl \<and> resetTime cl = now"
  then have "rateLimit_before_next opts now req cls =
           (if maxRequests opts < count cl + 1
            then Some (too_many_requests opts now (cl\<lparr>count := count cl + 1\<rparr>))
            else None,
            cls(key_of opts req \<mapsto> cl\<lparr>count := count cl + 1\<rparr>))"
    by (intro before_next_in_window) simp_all
  with eq show "snd (rateLimit_before_next opts now req cls)
           = cls(key_of opts req \<mapsto> \<lparr>count = count cl + 1, resetTime = now\<rparr>)"
    and "fst (rateLimit_before_next opts now req cls) = None
            \<longleftrightarrow> count cl + 1 \<le> maxRequests opts"
    by (auto simp: client_count_update)
qed

theorem window_reset_witness:
  "rateLimit_before_next limit_three 1001 get_request exhausted_clients
     = (None, exhausted_clients(''localhost'' \<mapsto> \<lparr>count = 1, resetTime = 61001\<rparr>))
   \<and> snd (rateLimit_before_next limit_three 1000 get_request exhausted_clients)
     = exhausted_clients(''localhost'' \<mapsto> \<lparr>count = 4, resetTime = 1000\<rparr>)"
  using window_reset [of exhausted_clients limit_three get_request 1001 "\<lparr>count = 3, resetTime = 1000\<rparr>"]
    window_reset [of exhausted_clients limit_three get_request 1000 "\<lparr>count = 3, resetTime = 1000\<rparr>"]
  by (simp add: limit_three_def exhausted_clients_def key_of_def get_request_def)

text \<open>
  C6: when the continuation resolves with a response before the deadline fires, the
  timeout middleware returns that response as it is and the timer is cleared; when the
  deadline fires first, it returns status 408 with \<open>Content-Type: application/json\<close> and
  the body \<open>{"error":"Request Timeout"}\<close>.
\<close>

theorem timeout_race:
  \<open>timeout timeoutMs (NextSettled (Inr resp)) = (Inr resp, Cleared)
   \<and> fst (timeout timeoutMs DeadlineFired)
       = Inr \<lparr>status = 408, headers = [(''Content-Type'', ''application/json'')],
              body = Some ''{"error":"Request Timeout"}'', immutable_headers = False\<rparr>\<close>
  by (simp add: timeout_def timeout_catch_def clearTimeout_def request_timeout_def)

text \<open>
  C7 as stated fails for one error: the middleware recognises the deadline by the
  message of the error, so an \<open>Error("Request timeout")\<close> raised by the continuation
  itself before the deadline is answered 408.
\<close>

theorem timeout_message_counterexample:
  "timeout 30000 (NextSettled (Inl (ErrorObj ''Request timeout''))) = (Inr request_timeout, Cleared)"
  by (simp add: timeout_def timeout_catch_def clearTimeout_def)

text \<open>
  C7, amended: every error the continuation raises before the deadline fires, other than
  an \<open>Error\<close> object whose message is exactly \<open>Request timeout\<close>, is propagated unchanged
  (and the timer is cleared); an \<open>Error\<close> with that message is converted into the 408
  response.
\<close>

theorem timeout_propagates_other_errors:
  "(e \<noteq> ErrorObj ''Request timeout''
      \<longrightarrow> timeout timeoutMs (NextSettled (Inl e)) = (Inl e, Cleared))
   \<and> timeout timeoutMs (NextSettled (Inl (ErrorObj ''Request timeout'')))
       = (Inr request_timeout, Cleared)"
  by (cases e) (simp_all add: timeout_def timeout_catch_def clearTimeout_def)

theorem timeout_propagates_other_errors_witness:
  "timeout 30000 (NextSettled (Inl (ErrorObj ''boom''))) = (Inl (ErrorObj ''boom''), Cleared)
   \<and> timeout 30000 (NextSettled (Inl (NonError ''Request timeout'')))
       = (Inl (NonError ''Request timeout''), Cleared)"
  using timeout_propagates_other_errors [of "ErrorObj ''boom''" 30000]
    timeout_propagates_other_errors [of "NonError ''Request timeout''" 30000]
  by simp

section \<open>Properties of the context store and of CORS\<close>

lemma find_property_own:
  "own (objects h a) key = Some p \<Longrightarrow> find_property (Suc n) h a key = Some p"
  by simp

lemma write_key_data:
  assumes "find_property (chain_fuel h) h a key \<noteq> Some ProtoAccessor"
  shows "write_key a key v h
     = Inr (h\<lparr>objects := (objects h)
               (a := (objects h a)\<lparr>own := (own (objects h a))(key \<mapsto> Data v)\<rparr>)\<rparr>)"
  using assms
  by (cases "find_property (chain_fuel h) h a key")
     (auto simp: write_key_def split: property.splits)

lemma write_key_ignored:
  assumes "find_property (chain_fuel h) h a key = Some ProtoAccessor"
    and "v = Undefined \<or> (\<exists>text. v = Primitive text)"
  shows "write_key a key v h = Inr h"
  using assms by (auto simp: write_key_def)

lemma read_key_written:
  "read_key a key
     (h\<lparr>objects := (objects h)
          (a := (objects h a)\<lparr>own := (own (objects h a))(key \<mapsto> Data v)\<rparr>)\<rparr>) = v"
  by (simp add: read_key_def chain_fuel_def)

lemma write_key_frame:
  assumes "write_key a key v h = Inr h2"
  shows "next_ref h2 = next_ref h \<and> object_prototype h2 = object_prototype h
         \<and> (\<forall>b. b \<noteq> a \<longrightarrow> objects h2 b = objects h b)"
  using assms
  by (auto simp: write_key_def set_prototype_def
      split: option.splits property.splits jsvalue.splits if_splits)

lemma getContext_absent:
  "context req = None \<Longrightarrow> getContext req h
     = (next_ref h,
        h\<lparr>next_ref := next_ref h + 1,
          objects := (objects h)
            (next_ref h := \<lparr>own = Map.empty, prototype = Some (object_prototype h)\<rparr>)\<rparr>)"
  by (simp add: getContext_def new_object_def)

lemma getContext_present: "context req = Some a \<Longrightarrow> getContext req h = (a, h)"
  by (simp add: getContext_def)

text \<open>
  C9 as stated fails in its first part: \<open>getContext\<close> on a request without a context
  returns a new empty object and does not store it in the request. The value written at
  \<open>user\<close> through the first result (reference 2) is read there, and a second call
  returns another object (reference 3) where \<open>user\<close> is undefined.
\<close>

theorem get_context_not_stored_counterexample:
  "first_context = 2
   \<and> read_key 2 ''user'' after_first_write = Primitive ''7''
   \<and> fst (getContext get_request after_first_write) = 3
   \<and> read_key 3 ''user'' (snd (getContext get_request after_first_write)) = Undefined"
  by (simp add: first_context_def after_first_write_def getContext_def new_object_def
      write_key_def read_key_def chain_fuel_def get_request_def realm_heap_def
      eval_nat_numeral)

text \<open>
  C9, amended: on a request without a context, \<open>getContext\<close> returns a new object
  without own properties, whose prototype is \<open>Object.prototype\<close>, and leaves the request
  as it is; so a second call returns another such object, and a write through the first
  result changes the first object only. On a request with a context it returns that
  context. \<open>setContext(req, key, value)\<close> fetches or creates the context, writes the key
  and stores the context in the request; for every key that does not resolve to the
  \<open>__proto__\<close> accessor, a following \<open>getContext(req)\<close> returns this context and
  reads the value at the key. For a key that resolves to the accessor (the key
  \<open>__proto__\<close> of an object that inherits from \<open>Object.prototype\<close>) and a value that
  is \<open>undefined\<close> or a primitive, \<open>setContext\<close> stores the context in the request
  and writes nothing.
\<close>

theorem context_store:
  "(context req = None \<longrightarrow>
      getContext req h
        = (next_ref h,
           h\<lparr>next_ref := next_ref h + 1,
             objects := (objects h)
               (next_ref h := \<lparr>own = Map.empty, prototype = Some (object_prototype h)\<rparr>)\<rparr>)
      \<and> (\<forall>h2. write_key (fst (getContext req h)) key v (snd (getContext req h)) = Inr h2 \<longrightarrow>
            fst (getContext req h2) \<noteq> fst (getContext req h)
            \<and> objects (snd (getContext req h2)) (fst (getContext req h2))
                = \<lparr>own = Map.empty, prototype = Some (object_prototype h)\<rparr>
            \<and> (\<forall>b. b \<noteq> fst (getContext req h)
                  \<longrightarrow> objects h2 b = objects (snd (getContext req h)) b)))
   \<and> (context req = Some a \<longrightarrow> getContext req h = (a, h))
   \<and> (find_property (chain_fuel (snd (getContext req h))) (snd (getContext req h))
         (fst (getContext req h)) key \<noteq> Some ProtoAccessor \<longrightarrow>
        (\<exists>h'. setContext req key v h = Inr (req\<lparr>context := Some (fst (getContext req h))\<rparr>, h')
           \<and> getContext (req\<lparr>context := Some (fst (getContext req h))\<rparr>) h'
               = (fst (getContext req h), h')
           \<and> read_key (fst (getContext req h)) key h' = v))
   \<and> (find_property (chain_fuel (snd (getContext req h))) (snd (getContext req h))
         (fst (getContext req h)) key = Some ProtoAccessor
       \<and> (v = Undefined \<or> (\<exists>text. v = Primitive text)) \<longrightarrow>
        setContext req key v h
          = Inr (req\<lparr>context := Some (fst (getContext req h))\<rparr>, snd (getContext req h)))"
proof (intro conjI impI allI)
  obtain ctx h1 where g: "getContext req h = (ctx, h1)" by (cases "getContext req h")
  show "getContext req h = (a, h)" if "context req = Some a"
    using that by (rule getContext_present)
  show "getContext req h
        = (next_ref h,
           h\<lparr>next_ref := next_ref h + 1,
             objects := (objects h)
               (next_ref h := \<lparr>own = Map.empty, prototype = Some (object_prototype h)\<rparr>)\<rparr>)"
    if "context req = None"
    using that by (rule getContext_absent)
  {
    fix h2
    assume none: "context req = None"
      and w: "write_key (fst (getContext req h)) key v (snd (getContext req h)) = Inr h2"
    from getContext_absent [OF none, of h] g have ctx: "ctx = next_ref h"
      and h1: "next_ref h1 = next_ref h + 1" "object_prototype h1 = object_prototype h"
      by auto
    from w g have w': "write_key ctx key v h1 = Inr h2" by simp
    from write_key_frame [OF w'] h1 have frame: "next_ref h2 = next_ref h + 1"
      "object_prototype h2 = object_prototype h"
      "\<forall>b. b \<noteq> ctx \<longrightarrow> objects h2 b = objects h1 b"
      by simp_all
    from getContext_absent [OF none, of h2] frame g ctx
    show "fst (getContext req h2) \<noteq> fst (getContext req h)"
      and "objects (snd (getContext req h2)) (fst (getContext req h2))
                = \<lparr>own = Map.empty, prototype = Some (object_prototype h)\<rparr>"
      by simp_all
    show "objects h2 b = objects (snd (getContext req h)) b" if "b \<noteq> fst (getContext req h)" for b
      using that frame(3) g by simp
  }
  {
    assume data: "find_property (chain_fuel (snd (getContext req h))) (snd (getContext req h))
         (fst (getContext req h)) key \<noteq> Some ProtoAccessor"
    let ?h' = "h1\<lparr>objects := (objects h1)
               (ctx := (objects h1 ctx)\<lparr>own := (own (objects h1 ctx))(key \<mapsto> Data v)\<rparr>)\<rparr>"
    from data g have "write_key ctx key v h1 = Inr ?h'"
      by (intro write_key_data) simp
    with g have "setContext req key v h = Inr (req\<lparr>context := Some ctx\<rparr>, ?h')"
      by (simp add: setContext_def)
    moreover have "getContext (req\<lparr>context := Some ctx\<rparr>) ?h' = (ctx, ?h')"
      by (simp add: getContext_def)
    moreover have "read_key ctx key ?h' = v"
      by (rule read_key_written)
    ultimately show "\<exists>h'. setContext req key v h
             = Inr (req\<lparr>context := Some (fst (getContext req h))\<rparr>, h')
           \<and> getContext (req\<lparr>context := Some (fst (getContext req h))\<rparr>) h'
               = (fst (getContext req h), h')
           \<and> read_key (fst (getContext req h)) key h' = v"
      using g by auto
  }
  {
    assume acc: "find_property (chain_fuel (snd (getContext req h))) (snd (getContext req h))
         (fst (getContext req h)) key = Some ProtoAccessor
       \<and> (v = Undefined \<or> (\<exists>text. v = Primitive text))"
    with g have "write_key ctx key v h1 = Inr h1"
      by (intro write_key_ignored) simp_all
    with g show "setContext req key v h
          = Inr (req\<lparr>context := Some (fst (getContext req h))\<rparr>, snd (getContext req h))"
      by (simp add: setContext_def)
  }
qed


theorem context_store_witness:
  "getContext (get_request\<lparr>context := Some 1\<rparr>) realm_heap = (1, realm_heap)
   \<and> fst (getContext get_request realm_heap) = 2
   \<and> (\<exists>h'. setContext get_request ''user'' (Primitive ''7'') realm_heap
              = Inr (get_request\<lparr>context := Some 2\<rparr>, h')
           \<and> getContext (get_request\<lparr>context := Some 2\<rparr>) h' = (2, h')
           \<and> read_key 2 ''user'' h' = Primitive ''7'')
   \<and> setContext get_request ''__proto__'' (Primitive ''7'') realm_heap
       = Inr (get_request\<lparr>context := Some 2\<rparr>, snd (getContext get_request realm_heap))
   \<and> read_key 2 ''__proto__'' (snd (getContext get_request realm_heap)) = Ref 0"
proof -
  have g: "getContext get_request realm_heap
      = (2, realm_heap\<lparr>next_ref := 3,
              objects := (objects realm_heap)(2 := \<lparr>own = Map.empty, prototype = Some 0\<rparr>)\<rparr>)"
    by (simp add: getContext_def new_object_def get_request_def realm_heap_def)
  have user: "find_property (chain_fuel (snd (getContext get_request realm_heap)))
      (snd (getContext get_request realm_heap)) (fst (getContext get_request realm_heap)) ''user''
      \<noteq> Some ProtoAccessor"
    unfolding g by (simp add: chain_fuel_def realm_heap_def eval_nat_numeral)
  have proto: "find_property (chain_fuel (snd (getContext get_request realm_heap)))
      (snd (getContext get_request realm_heap)) (fst (getContext get_request realm_heap))
      ''__proto__'' = Some ProtoAccessor"
    unfolding g by (simp add: chain_fuel_def realm_heap_def eval_nat_numeral)
  have read: "read_key 2 ''__proto__'' (snd (getContext get_request realm_heap)) = Ref 0"
    unfolding g by (simp add: read_key_def chain_fuel_def realm_heap_def eval_nat_numeral)
  from context_store [where req = "get_request\<lparr>context := Some 1\<rparr>" and h = realm_heap
      and a = 1 and key = "''user''" and v = "Primitive ''7''"]
  have "getContext (get_request\<lparr>context := Some 1\<rparr>) realm_heap = (1, realm_heap)"
    by simp
  moreover from context_store [where req = get_request and h = realm_heap and a = 1
      and key = "''user''" and v = "Primitive ''7''"] user g
  have "\<exists>h'. setContext get_request ''user'' (Primitive ''7'') realm_heap
              = Inr (get_request\<lparr>context := Some 2\<rparr>, h')
           \<and> getContext (get_request\<lparr>context := Some 2\<rparr>) h' = (2, h')
           \<and> read_key 2 ''user'' h' = Primitive ''7''"
    by simp
  moreover from context_store [where req = get_request and h = realm_heap and a = 1
      and key = "''__proto__''" and v = "Primitive ''7''"] proto g
  have "setContext get_request ''__proto__'' (Primitive ''7'') realm_heap
       = Inr (get_request\<lparr>context := Some 2\<rparr>, snd (getContext get_request realm_heap))"
    by simp
  ultimately show ?thesis using g read by simp
qed

lemma cors_header_names [simp]:
  "\<not> same_name ''Access-Control-Allow-Origin'' ''Access-Control-Allow-Methods''"
  "\<not> same_name ''Access-Control-Allow-Origin'' ''Access-Control-Allow-Headers''"
  "\<not> same_name ''Access-Control-Allow-Origin'' ''Access-Control-Max-Age''"
  "\<not> same_name ''Access-Control-Allow-Origin'' ''Access-Control-Allow-Credentials''"
  by (simp_all add: same_name_def lower_char_def)

lemma allow_origin_mutable:
  assumes "\<not> immutable_headers r"
  shows "\<exists>r'. allow_origin origin req r = Inr r' \<and> status r' = status r \<and> body r' = body r
     \<and> \<not> immutable_headers r'"
  using assms
  by (auto simp: allow_origin_def set_header_mutable split: origin_option.split option.split)

lemma allow_origin_not_listed:
  assumes "\<forall>origin. headers_get (req_headers req) ''Origin'' = Some origin
                  \<longrightarrow> origin \<notin> set allowed"
  shows "allow_origin (OriginList allowed) req r = Inr r"
  using assms by (simp add: allow_origin_def split: option.split)

lemma preflight_response:
  assumes "method req = ''OPTIONS''"
  shows "\<exists>resp. cors copts req = Done (Inr resp) \<and> status resp = 204 \<and> body resp = None
     \<and> (\<forall>allowed. cors_origin copts = Some (OriginList allowed)
            \<and> (\<forall>origin. headers_get (req_headers req) ''Origin'' = Some origin
                  \<longrightarrow> origin \<notin> set allowed)
          \<longrightarrow> headers_get (headers resp) ''Access-Control-Allow-Origin'' = None)"
proof -
  let ?origin = "case cors_origin copts of None \<Rightarrow> OriginString ''*'' | Some x \<Rightarrow> x"
  let ?r0 = "\<lparr>status = 204, headers = [], body = None, immutable_headers = False\<rparr>"
  from allow_origin_mutable [of ?r0 ?origin req] obtain r1
    where r1: "allow_origin ?origin req ?r0 = Inr r1" "status r1 = 204" "body r1 = None"
      "\<not> immutable_headers r1"
    by auto
  define r4 where "r4 = r1\<lparr>headers :=
      headers_set
        (headers_set
          (headers_set (headers r1) ''Access-Control-Allow-Methods''
            (join '', '' (case cors_methods copts of
                            None \<Rightarrow> [''GET'', ''POST'', ''PUT'', ''DELETE'', ''OPTIONS'']
                          | Some x \<Rightarrow> x)))
          ''Access-Control-Allow-Headers''
          (join '', '' (case cors_headers copts of
                          None \<Rightarrow> [''Content-Type'', ''Authorization'']
                        | Some x \<Rightarrow> x)))
        ''Access-Control-Max-Age''
        (toString (case cors_maxAge copts of None \<Rightarrow> 86400 | Some x \<Rightarrow> x))\<rparr>"
  define resp where "resp =
      (if (case cors_credentials copts of None \<Rightarrow> False | Some x \<Rightarrow> x)
       then r4\<lparr>headers := headers_set (headers r4) ''Access-Control-Allow-Credentials'' ''true''\<rparr>
       else r4)"
  have resp: "cors copts req = Done (Inr resp)"
    using assms r1 by (simp add: cors_def Let_def allow_credentials_def set_header_mutable
        resp_def r4_def)
  have st: "status resp = 204" and bd: "body resp = None"
    using r1 by (simp_all add: resp_def r4_def)
  have acao: "headers_get (headers resp) ''Access-Control-Allow-Origin''
      = headers_get (headers r1) ''Access-Control-Allow-Origin''"
    by (simp add: resp_def r4_def headers_get_set)
  have "headers_get (headers resp) ''Access-Control-Allow-Origin'' = None"
    if "cors_origin copts = Some (OriginList allowed)
        \<and> (\<forall>origin. headers_get (req_headers req) ''Origin'' = Some origin
                  \<longrightarrow> origin \<notin> set allowed)" for allowed
  proof -
    from that have "allow_origin (OriginList allowed) req ?r0 = Inr ?r0"
      by (intro allow_origin_not_listed) simp
    with that r1(1) have "r1 = ?r0" by simp
    with acao show ?thesis by (simp add: headers_get_def)
  qed
  with resp st bd show ?thesis by blast
qed


lemma stages_up_to_enter:
  assumes "stages_up_to i s" and "j \<le> i"
  shows "stages_up_to i (s\<lparr>index := int j, ran := ran s @ [j]\<rparr>)"
  using assms by (simp add: stages_up_to_def)

lemma dispatch_stops_at:
  assumes stop: "\<exists>r. (middlewares c ! i) req = Done (Inr r)"
    and lt: "i < length (middlewares c)"
  shows "j \<le> i \<Longrightarrow> stages_up_to i s \<Longrightarrow> stages_up_to i (snd (dispatch c req j s))"
proof (induction "i - j" arbitrary: j s)
  case 0
  then have j: "j = i" by simp
  show ?case
  proof (cases "int j \<le> index s")
    case True
    with "0.prems" show ?thesis by (simp add: dispatch_twice)
  next
    case fresh: False
    from stop obtain r where "(middlewares c ! i) req = Done (Inr r)" ..
    with lt j have st: "stage c req j s = (Inr r, s\<lparr>index := int j, ran := ran s @ [j]\<rparr>)"
      by (simp add: stage_def Let_def)
    from lt j have inside: "\<not> length (middlewares c) < j" by simp
    from stages_up_to_enter [OF "0.prems"(2,1)] show ?thesis
      by (simp add: dispatch_stage [OF fresh inside st])
  qed
next
  case (Suc d)
  then have j: "j < i" by simp
  show ?case
  proof (cases "int j \<le> index s")
    case True
    with Suc.prems show ?thesis by (simp add: dispatch_twice)
  next
    case fresh: False
    from lt j have inside: "\<not> length (middlewares c) < j" and mid: "j \<noteq> length (middlewares c)"
      by simp_all
    have below: "stages_up_to i (snd (dispatch c req (j + 1) s'))" if "stages_up_to i s'" for s'
      using Suc.hyps(2) j that by (intro Suc.hyps(1)) simp_all
    obtain res s2 where st: "stage c req j s = (res, s2)" by (cases "stage c req j s")
    have "stages_up_to i (snd (run ((middlewares c ! j) req) (dispatch c req (j + 1))
        (s\<lparr>index := int j, ran := ran s @ [j]\<rparr>)))"
      using stages_up_to_enter [OF Suc.prems(2,1)]
      by (rule run_preserves [where P = "stages_up_to i", rotated]) (rule below)
    with st mid have s2: "stages_up_to i s2"
      by (simp add: stage_def Let_def)
    show ?thesis
    proof (cases res)
      case (Inr r)
      with s2 show ?thesis by (simp add: dispatch_stage [OF fresh inside st])
    next
      case (Inl e)
      with s2 below [OF s2] show ?thesis by (simp add: dispatch_stage [OF fresh inside st])
    qed
  qed
qed

text \<open>
  C10: for a request whose method is \<open>OPTIONS\<close> the CORS middleware returns a response
  with status 204 and no body without invoking its continuation; when the configured
  origin is an allow-list and the request has no \<open>Origin\<close> header or one that is not in
  the list, the response has no \<open>Access-Control-Allow-Origin\<close> header. In a chain with
  the CORS middleware at stage \<open>i\<close>, no stage after \<open>i\<close> and no terminal handler is
  started for such a request, under either error policy.
\<close>

theorem cors_preflight_short_circuits:
  "method req = ''OPTIONS'' \<longrightarrow>
     (\<exists>resp. cors copts req = Done (Inr resp) \<and> status resp = 204 \<and> body resp = None
        \<and> (\<forall>allowed. cors_origin copts = Some (OriginList allowed)
               \<and> (\<forall>origin. headers_get (req_headers req) ''Origin'' = Some origin
                     \<longrightarrow> origin \<notin> set allowed)
             \<longrightarrow> headers_get (headers resp) ''Access-Control-Allow-Origin'' = None))
     \<and> (i < length mws \<and> mws ! i = cors copts
        \<longrightarrow> list_all (\<lambda>j. j \<le> i) (ran (snd (composed_run mws h options req))))"
proof (intro impI conjI)
  assume m: "method req = ''OPTIONS''"
  then show "\<exists>resp. cors copts req = Done (Inr resp) \<and> status resp = 204 \<and> body resp = None
        \<and> (\<forall>allowed. cors_origin copts = Some (OriginList allowed)
               \<and> (\<forall>origin. headers_get (req_headers req) ''Origin'' = Some origin
                     \<longrightarrow> origin \<notin> set allowed)
             \<longrightarrow> headers_get (headers resp) ''Access-Control-Allow-Origin'' = None)"
    by (rule preflight_response)
  assume i: "i < length mws \<and> mws ! i = cors copts"
  let ?c = "make_chain mws h options"
  from preflight_response [OF m, of copts] i
  have "\<exists>r. (middlewares ?c ! i) req = Done (Inr r)" by auto
  moreover from i have "i < length (middlewares ?c)" by simp
  moreover have "0 \<le> i" by simp
  moreover have "stages_up_to i \<lparr>index = - 1, ran = []\<rparr>" by (simp add: stages_up_to_def)
  ultimately have "stages_up_to i (snd (dispatch ?c req 0 \<lparr>index = - 1, ran = []\<rparr>))"
    by (rule dispatch_stops_at)
  then show "list_all (\<lambda>j. j \<le> i) (ran (snd (composed_run mws h options req)))"
    by (simp add: composed_run_def stages_up_to_def)
qed

theorem cors_preflight_short_circuits_witness:
  "(\<exists>resp. cors cors_allow_list options_request = Done (Inr resp) \<and> status resp = 204
       \<and> body resp = None
       \<and> headers_get (headers resp) ''Access-Control-Allow-Origin'' = None)
   \<and> list_all (\<lambda>j. j \<le> 1)
       (ran (snd (composed_run [pass_through, cors cors_allow_list, pass_through] ok_handler
          \<lparr>continueOnError = Some True, errorHandler = None\<rparr> options_request)))"
proof -
  have "headers_get (req_headers options_request) ''Origin'' = Some ''https://b.com''"
    by (simp add: options_request_def headers_get_def same_name_def)
  with cors_preflight_short_circuits [of options_request cors_allow_list 1
      "[pass_through, cors cors_allow_list, pass_through]" ok_handler
      "\<lparr>continueOnError = Some True, errorHandler = None\<rparr>"]
  show ?thesis
    by (simp add: options_request_def cors_allow_list_def)
qed

end
